theory Spec2Isabelle
  imports Main "HOL-Library.Char_ord"
begin

section \<open>Python values and library primitives used by the indexer\<close>

text \<open>
  A Python \<open>bytes\<close> object is a list of 8-bit characters. A Python \<open>str\<close> produced by
  decoding is represented by its UTF-8 encoding, again a list of 8-bit characters.
\<close>

type_synonym bytes = string

type_synonym pystr = string

text \<open>
  The exceptions that the modelled functions can raise: the module's own
  \<open>BencodeError\<close>, the built-in \<open>ValueError\<close> (\<open>bytes.index\<close>, \<open>int\<close>) and
  \<open>TypeError\<close> (\<open>in\<close> applied to an \<open>int\<close>), and the \<open>RecursionError\<close> that the
  interpreter raises when a call would exceed its recursion limit.
\<close>

datatype pyerr = BencodeError | ValueError | TypeError | RecursionError

text \<open>\<open>data[a:b]\<close> for non-negative indices: clamped to the buffer, never raising.\<close>

definition py_slice :: "'a list \<Rightarrow> nat \<Rightarrow> nat \<Rightarrow> 'a list" where
  "py_slice data a b = take (b - a) (drop a data)"

text \<open>\<open>data.index(c, i)\<close> for a one-byte needle: the first position at or after \<open>i\<close>
  that holds \<open>c\<close>; \<open>None\<close> stands for the \<open>ValueError\<close> raised when there is none.\<close>

definition py_index :: "bytes \<Rightarrow> char \<Rightarrow> nat \<Rightarrow> nat option" where
  "py_index data c i =
     (if c \<in> set (drop i data)
      then Some (i + length (takeWhile (\<lambda>x. x \<noteq> c) (drop i data)))
      else None)"

definition is_space :: "char \<Rightarrow> bool" where
  "is_space c = (c \<in> set [CHR 0x09, CHR 0x0A, CHR 0x0B, CHR 0x0C, CHR 0x0D, CHR 0x20])"

definition is_digit :: "char \<Rightarrow> bool" where
  "is_digit c = (CHR ''0'' \<le> c \<and> c \<le> CHR ''9'')"

definition digit_val :: "char \<Rightarrow> nat" where
  "digit_val c = of_char c - 48"

definition dec_val :: "bytes \<Rightarrow> nat" where
  "dec_val ds = foldl (\<lambda>a c. 10 * a + digit_val c) 0 ds"

text \<open>The digit part of an integer literal: digits, with single underscores allowed
  between two digits.\<close>

fun digits_us :: "bytes \<Rightarrow> bool" where
  "digits_us [] = False"
| "digits_us [c] = is_digit c"
| "digits_us (c # d # r) =
     (is_digit c \<and> (if d = CHR ''_'' then digits_us r else digits_us (d # r)))"

text \<open>The interpreter's default limit on the number of digits \<open>int\<close> converts.\<close>

definition int_max_str_digits :: nat where
  "int_max_str_digits = 4300"

text \<open>
  \<open>int(b)\<close> for a \<open>bytes\<close> argument, base 10: ASCII white space is stripped on both
  sides, one sign may lead, the digits may be grouped by single underscores, leading zeros
  are accepted. \<open>None\<close> stands for the \<open>ValueError\<close> raised on anything else.
\<close>

definition py_int :: "bytes \<Rightarrow> int option" where
  "py_int b =
     (let s = dropWhile is_space b;
          t = (if take 1 s = ''-'' \<or> take 1 s = ''+'' then drop 1 s else s);
          body = takeWhile (\<lambda>c. is_digit c \<or> c = CHR ''_'') t;
          rest = dropWhile (\<lambda>c. is_digit c \<or> c = CHR ''_'') t;
          ds = filter is_digit body
      in if digits_us body \<and> list_all is_space rest \<and> length ds \<le> int_max_str_digits
         then Some (if take 1 s = ''-'' then - int (dec_val ds) else int (dec_val ds))
         else None)"

text \<open>\<open>a or b\<close> on optional byte strings: \<open>None\<close> and the empty byte string are falsy.\<close>

definition py_or :: "bytes option \<Rightarrow> bytes option \<Rightarrow> bytes option" where
  "py_or a b = (case a of None \<Rightarrow> b | Some s \<Rightarrow> if s = [] then b else Some s)"

text \<open>
  A Python \<open>dict\<close> keeps its keys in insertion order; \<open>d[k] = v\<close> replaces the value of
  a key that is present where it stands and appends a new key at the end.
\<close>

fun dict_set :: "('k \<times> 'v) list \<Rightarrow> 'k \<Rightarrow> 'v \<Rightarrow> ('k \<times> 'v) list" where
  "dict_set [] k v = [(k, v)]"
| "dict_set ((k', v') # d) k v =
     (if k' = k then (k, v) # d else (k', v') # dict_set d k v)"

abbreviation dict_get :: "('k \<times> 'v) list \<Rightarrow> 'k \<Rightarrow> 'v option" where
  "dict_get d k \<equiv> map_of d k"

section \<open>The bencode decoder\<close>

text \<open>The values \<open>_bdecode\<close> builds: \<open>int\<close>, \<open>bytes\<close>, \<open>list\<close> and \<open>dict\<close>.\<close>

datatype bval =
    BInt int
  | BStr bytes
  | BList "bval list"
  | BDict "(bytes \<times> bval) list"

type_synonym decoded = "bval \<times> nat \<times> bytes option"

text \<open>\<open>b"0" <= c <= b"9"\<close> for the one-byte slice \<open>c\<close>.\<close>

definition in_0_9 :: "bytes \<Rightarrow> bool" where
  "in_0_9 c = (case c of [x] \<Rightarrow> is_digit x | _ \<Rightarrow> False)"

text \<open>The integer branch: \<open>j = data.index(b"e", i); num = int(data[i + 1 : j])\<close>.\<close>

definition decode_int :: "bytes \<Rightarrow> nat \<Rightarrow> pyerr + decoded" where
  "decode_int data i =
     (case py_index data (CHR ''e'') i of
        None \<Rightarrow> Inl ValueError
      | Some j \<Rightarrow>
          (case py_int (py_slice data (i + 1) j) of
             None \<Rightarrow> Inl ValueError
           | Some num \<Rightarrow> Inr (BInt num, j + 1, None)))"

text \<open>The byte-string branch: \<open>j = data.index(b":", i); length = int(data[i:j]);
  start = j + 1; end = start + length\<close>; the result is \<open>data[start:end], end, None\<close>.
  No comparison of \<open>end\<close> with \<open>len(data)\<close> is made.\<close>

definition decode_str :: "bytes \<Rightarrow> nat \<Rightarrow> pyerr + decoded" where
  "decode_str data i =
     (case py_index data (CHR '':'') i of
        None \<Rightarrow> Inl ValueError
      | Some j \<Rightarrow>
          (case py_int (py_slice data i j) of
             None \<Rightarrow> Inl ValueError
           | Some len \<Rightarrow>
               Inr (BStr (py_slice data (j + 1) (nat (int (j + 1) + len))),
                    nat (int (j + 1) + len), None)))"

text \<open>Sequencing of a call that may raise: an exception of the call (\<open>Inl\<close>) and
  exhausted fuel (\<open>None\<close>) are passed on.\<close>

definition and_then ::
  "(pyerr + 'a) option \<Rightarrow> ('a \<Rightarrow> (pyerr + 'b) option) \<Rightarrow> (pyerr + 'b) option" where
  "and_then m f =
     (case m of None \<Rightarrow> None | Some (Inl e) \<Rightarrow> Some (Inl e) | Some (Inr x) \<Rightarrow> f x)"

text \<open>
  \<open>_bdecode(data, i, capture_info)\<close>, as the function is written: what it computes when
  the interpreter lets every nested call run (its recursion limit is added in
  \<open>bdecode_rec\<close> below). The two \<open>while\<close> loops are \<open>list_loop\<close> and
  \<open>dict_loop\<close>, whose last two arguments are the loop variables (\<open>lst\<close> or \<open>d\<close>, and
  \<open>info_slice\<close>). Every call and every loop iteration spends one unit of fuel; the
  result \<open>None\<close> means that the fuel ran out, \<open>Some (Inl e)\<close> that \<open>e\<close> was raised.
\<close>

function (sequential)
  bdecode_fuel :: "nat \<Rightarrow> bytes \<Rightarrow> nat \<Rightarrow> bool \<Rightarrow> (pyerr + decoded) option"
  and list_loop :: "nat \<Rightarrow> bytes \<Rightarrow> nat \<Rightarrow> bool \<Rightarrow> bval list \<Rightarrow> bytes option
                      \<Rightarrow> (pyerr + decoded) option"
  and dict_loop :: "nat \<Rightarrow> bytes \<Rightarrow> nat \<Rightarrow> bool \<Rightarrow> (bytes \<times> bval) list \<Rightarrow> bytes option
                      \<Rightarrow> (pyerr + decoded) option"
where
  "bdecode_fuel 0 data i cap = None"
| "bdecode_fuel (Suc n) data i cap =
     (if i \<ge> length data then Some (Inl BencodeError)
      else if py_slice data i (i + 1) = ''i'' then Some (decode_int data i)
      else if py_slice data i (i + 1) = ''l'' then list_loop n data (i + 1) cap [] None
      else if py_slice data i (i + 1) = ''d'' then dict_loop n data (i + 1) cap [] None
      else if in_0_9 (py_slice data i (i + 1)) then Some (decode_str data i)
      else Some (Inl BencodeError))"
| "list_loop 0 data i cap lst info_slice = None"
| "list_loop (Suc n) data i cap lst info_slice =
     (if py_slice data i (i + 1) \<noteq> ''e'' then
        and_then (bdecode_fuel n data i cap) (\<lambda>(v, i', info_sub).
          list_loop n data i' cap (lst @ [v]) (py_or info_slice info_sub))
      else Some (Inr (BList lst, i + 1, info_slice)))"
| "dict_loop 0 data i cap d info_slice = None"
| "dict_loop (Suc n) data i cap d info_slice =
     (if py_slice data i (i + 1) \<noteq> ''e'' then
        and_then (bdecode_fuel n data i False) (\<lambda>(k, i1, _).
          case k of
            BStr k_bytes \<Rightarrow>
              (if cap \<and> k_bytes = ''info'' then
                 and_then (bdecode_fuel n data i1 False) (\<lambda>(v, i2, _).
                   dict_loop n data i2 cap (dict_set d k_bytes v)
                     (Some (py_slice data i1 i2)))
               else
                 and_then (bdecode_fuel n data i1 cap) (\<lambda>(v, i2, sub_info).
                   dict_loop n data i2 cap (dict_set d k_bytes v)
                     (py_or info_slice sub_info)))
          | _ \<Rightarrow> Some (Inl BencodeError))
      else Some (Inr (BDict d, i + 1, info_slice)))"
  by pat_completeness auto
termination
  by (relation "measure (\<lambda>x. case x of Inl (n, _) \<Rightarrow> n | Inr (Inl (n, _)) \<Rightarrow> n
                                | Inr (Inr (n, _)) \<Rightarrow> n)") auto

text \<open>
  The decoder itself: \<open>bdecode_fuel\<close> with fuel that is always enough
  (\<open>bdecode_fuel_enough\<close> below), so the result is never \<open>None\<close>.
\<close>

definition bdecode :: "bytes \<Rightarrow> nat \<Rightarrow> bool \<Rightarrow> pyerr + decoded" where
  "bdecode data i cap = the (bdecode_fuel (2 * length data + 1) data i cap)"

text \<open>
  \<open>_bdecode\<close> under the interpreter's recursion limit. Every activation of \<open>_bdecode\<close>
  is one frame of the interpreter, and a nested call is made from inside its caller's
  frame, so the depth of the recursion is the depth of nesting of the input. The
  argument \<open>frames\<close> is the number of nested activations of \<open>_bdecode\<close> that the
  interpreter still allows (at most \<open>sys.getrecursionlimit()\<close>, 1000 by default, less
  the frames of the callers): a call made when none is left raises \<open>RecursionError\<close>,
  which no handler in \<open>_bdecode\<close> catches. The loops run inside the frame of their activation.
  Apart from this check the equations are those of \<open>bdecode_fuel\<close>.
\<close>

function (sequential)
  bdecode_rec :: "nat \<Rightarrow> nat \<Rightarrow> bytes \<Rightarrow> nat \<Rightarrow> bool \<Rightarrow> (pyerr + decoded) option"
  and list_rec :: "nat \<Rightarrow> nat \<Rightarrow> bytes \<Rightarrow> nat \<Rightarrow> bool \<Rightarrow> bval list \<Rightarrow> bytes option
                      \<Rightarrow> (pyerr + decoded) option"
  and dict_rec :: "nat \<Rightarrow> nat \<Rightarrow> bytes \<Rightarrow> nat \<Rightarrow> bool \<Rightarrow> (bytes \<times> bval) list
                      \<Rightarrow> bytes option \<Rightarrow> (pyerr + decoded) option"
where
  "bdecode_rec 0 frames data i cap = None"
| "bdecode_rec (Suc n) 0 data i cap = Some (Inl RecursionError)"
| "bdecode_rec (Suc n) (Suc frames) data i cap =
     (if i \<ge> length data then Some (Inl BencodeError)
      else if py_slice data i (i + 1) = ''i'' then Some (decode_int data i)
      else if py_slice data i (i + 1) = ''l'' then list_rec n frames data (i + 1) cap [] None
      else if py_slice data i (i + 1) = ''d'' then dict_rec n frames data (i + 1) cap [] None
      else if in_0_9 (py_slice data i (i + 1)) then Some (decode_str data i)
      else Some (Inl BencodeError))"
| "list_rec 0 frames data i cap lst info_slice = None"
| "list_rec (Suc n) frames data i cap lst info_slice =
     (if py_slice data i (i + 1) \<noteq> ''e'' then
        and_then (bdecode_rec n frames data i cap) (\<lambda>(v, i', info_sub).
          list_rec n frames data i' cap (lst @ [v]) (py_or info_slice info_sub))
      else Some (Inr (BList lst, i + 1, info_slice)))"
| "dict_rec 0 frames data i cap d info_slice = None"
| "dict_rec (Suc n) frames data i cap d info_slice =
     (if py_slice data i (i + 1) \<noteq> ''e'' then
        and_then (bdecode_rec n frames data i False) (\<lambda>(k, i1, _).
          case k of
            BStr k_bytes \<Rightarrow>
              (if cap \<and> k_bytes = ''info'' then
                 and_then (bdecode_rec n frames data i1 False) (\<lambda>(v, i2, _).
                   dict_rec n frames data i2 cap (dict_set d k_bytes v)
                     (Some (py_slice data i1 i2)))
               else
                 and_then (bdecode_rec n frames data i1 cap) (\<lambda>(v, i2, sub_info).
                   dict_rec n frames data i2 cap (dict_set d k_bytes v)
                     (py_or info_slice sub_info)))
          | _ \<Rightarrow> Some (Inl BencodeError))
      else Some (Inr (BDict d, i + 1, info_slice)))"
  by pat_completeness auto
termination
  by (relation "measure (\<lambda>x. case x of Inl (n, _) \<Rightarrow> n | Inr (Inl (n, _)) \<Rightarrow> n
                                | Inr (Inr (n, _)) \<Rightarrow> n)") auto

text \<open>The decoder under a recursion limit, with fuel that is always enough
  (\<open>bdecode_rec_enough\<close> below).\<close>

definition bdecode_limited :: "nat \<Rightarrow> bytes \<Rightarrow> nat \<Rightarrow> bool \<Rightarrow> pyerr + decoded" where
  "bdecode_limited frames data i cap =
     the (bdecode_rec (2 * length data + 1) frames data i cap)"

section \<open>Text: UTF-8 decoding, percent-encoding, path names\<close>

text \<open>
  \<open>b.decode("utf-8", errors)\<close> for the two error handlers the indexer uses. The decoder
  reads one character at a time; \<open>utf8_head s\<close> is \<open>(True, k)\<close> when \<open>s\<close> starts with a
  well-formed character of \<open>k\<close> bytes and \<open>(False, k)\<close> when it starts with a malformed
  sequence of \<open>k\<close> bytes, which the handler drops (\<open>ignore\<close>) or replaces by U+FFFD
  (\<open>replace\<close>).
\<close>

datatype decode_errors = Ignore | Replace

definition byte :: "char \<Rightarrow> nat" where
  "byte c = of_char c"

definition is_cont :: "char \<Rightarrow> bool" where
  "is_cont c = (0x80 \<le> byte c \<and> byte c < 0xC0)"

definition utf8_head :: "bytes \<Rightarrow> bool \<times> nat" where
  "utf8_head s =
     (let n = length s; b0 = byte (s ! 0) in
      if b0 < 0x80 then (True, 1)
      else if b0 < 0xC2 then (False, 1)
      else if b0 < 0xE0 then
        (if n < 2 then (False, n)
         else if \<not> is_cont (s ! 1) then (False, 1)
         else (True, 2))
      else if b0 < 0xF0 then
        (if n < 2 then (False, n)
         else if \<not> is_cont (s ! 1) \<or> (if byte (s ! 1) < 0xA0 then b0 = 0xE0 else b0 = 0xED)
           then (False, 1)
         else if n < 3 then (False, n)
         else if \<not> is_cont (s ! 2) then (False, 2)
         else (True, 3))
      else if b0 < 0xF5 then
        (if n < 2 then (False, n)
         else if \<not> is_cont (s ! 1) \<or> (if byte (s ! 1) < 0x90 then b0 = 0xF0 else b0 = 0xF4)
           then (False, 1)
         else if n < 3 then (False, n)
         else if \<not> is_cont (s ! 2) then (False, 2)
         else if n < 4 then (False, n)
         else if \<not> is_cont (s ! 3) then (False, 3)
         else (True, 4))
      else (False, 1))"

lemma utf8_head_pos: "s \<noteq> [] \<Longrightarrow> 0 < snd (utf8_head s)"
  by (cases s) (auto simp: utf8_head_def Let_def)

definition on_error :: "decode_errors \<Rightarrow> pystr" where
  "on_error h = (case h of Ignore \<Rightarrow> [] | Replace \<Rightarrow> [CHR 0xEF, CHR 0xBF, CHR 0xBD])"

function utf8_decode :: "decode_errors \<Rightarrow> bytes \<Rightarrow> pystr" where
  "utf8_decode h s =
     (if s = [] then []
      else (if fst (utf8_head s) then take (snd (utf8_head s)) s else on_error h)
             @ utf8_decode h (drop (snd (utf8_head s)) s))"
  by pat_completeness auto
termination
  by (relation "measure (\<lambda>(h, s). length s)") (auto simp: utf8_head_pos)

declare utf8_decode.simps [simp del]

text \<open>
  \<open>urllib.parse.quote(s, safe)\<close>: every byte of the UTF-8 encoding of \<open>s\<close> that is not
  an unreserved character and not in \<open>safe\<close> becomes \<open>%XX\<close> with upper-case hexadecimal
  digits. The default of \<open>safe\<close> is \<open>"/"\<close>.
\<close>

definition always_safe :: "char \<Rightarrow> bool" where
  "always_safe c =
     (c \<in> set ''ABCDEFGHIJKLMNOPQRSTUVWXYZabcdefghijklmnopqrstuvwxyz0123456789_.-~'')"

definition hex_digit :: "nat \<Rightarrow> char" where
  "hex_digit n = ''0123456789ABCDEF'' ! n"

definition quote_byte :: "bytes \<Rightarrow> char \<Rightarrow> pystr" where
  "quote_byte safe c =
     (if always_safe c \<or> c \<in> set safe then [c]
      else [CHR ''%'', hex_digit (byte c div 16), hex_digit (byte c mod 16)])"

definition quote :: "bytes \<Rightarrow> pystr \<Rightarrow> pystr" where
  "quote safe s = concat (map (quote_byte safe) s)"

text \<open>\<open>sep.join(xs)\<close>.\<close>

fun py_join :: "pystr \<Rightarrow> pystr list \<Rightarrow> pystr" where
  "py_join sep [] = []"
| "py_join sep [x] = x"
| "py_join sep (x # y # r) = x @ sep @ py_join sep (y # r)"

text \<open>\<open>s.startswith(p)\<close> and the substring test \<open>s in t\<close> on strings.\<close>

definition startswith :: "pystr \<Rightarrow> pystr \<Rightarrow> bool" where
  "startswith s p = (take (length p) s = p)"

fun py_in :: "pystr \<Rightarrow> pystr \<Rightarrow> bool" where
  "py_in s [] = (s = [])"
| "py_in s (c # t) = (take (length s) (c # t) = s \<or> py_in s t)"

text \<open>
  \<open>Path(a, b, ...).name\<close> for POSIX paths: the segments are joined as \<open>posixpath.join\<close>
  joins them (a segment that starts with \<open>/\<close> discards what precedes it), the path is
  split at \<open>/\<close>, empty and \<open>.\<close> components are dropped, and the name is the last component
  left, or the empty string.
\<close>

fun split_sep :: "char \<Rightarrow> pystr \<Rightarrow> pystr list" where
  "split_sep sep [] = [[]]"
| "split_sep sep (c # s) =
     (if c = sep then [] # split_sep sep s
      else (case split_sep sep s of [] \<Rightarrow> [[c]] | x # xs \<Rightarrow> (c # x) # xs))"

definition posix_join2 :: "pystr \<Rightarrow> pystr \<Rightarrow> pystr" where
  "posix_join2 path b =
     (if startswith b ''/'' then b
      else if path = [] \<or> last path = CHR ''/'' then path @ b
      else path @ ''/'' @ b)"

definition path_name :: "pystr list \<Rightarrow> pystr" where
  "path_name segs =
     (case filter (\<lambda>c. c \<noteq> [] \<and> c \<noteq> ''.'')
             (split_sep (CHR ''/'') (case segs of [] \<Rightarrow> [] | a # p \<Rightarrow> foldl posix_join2 a p)) of
        [] \<Rightarrow> []
      | c # cs \<Rightarrow> last (c # cs))"

section \<open>Infohash, magnet link and file list of a torrent\<close>

text \<open>\<open>isinstance(x, (bytes, bytearray))\<close>, giving the bytes.\<close>

fun as_bytes :: "bval \<Rightarrow> bytes option" where
  "as_bytes (BStr b) = Some b"
| "as_bytes _ = None"

text \<open>The display name read from the \<open>info\<close> dictionary: \<open>info.get(b"name")\<close> decoded
  with \<open>errors="replace"\<close> when \<open>info\<close> is a dictionary and the name a byte string.\<close>

definition info_name :: "bval option \<Rightarrow> pystr option" where
  "info_name info =
     (case info of
        Some (BDict idict) \<Rightarrow>
          (case dict_get idict ''name'' of
             Some (BStr nm) \<Rightarrow> Some (utf8_decode Replace nm)
           | _ \<Rightarrow> None)
      | _ \<Rightarrow> None)"

text \<open>The v2 test: \<open>info\<close> is a dictionary and \<open>info.get(b"meta version")\<close> is the
  integer 2.\<close>

definition is_v2 :: "bval option \<Rightarrow> bool" where
  "is_v2 info =
     (case info of
        Some (BDict idict) \<Rightarrow> dict_get idict ''meta version'' = Some (BInt 2)
      | _ \<Rightarrow> False)"

text \<open>\<open>name or torrent_path.stem\<close>: \<open>None\<close> and the empty string are falsy.\<close>

definition name_or :: "pystr option \<Rightarrow> pystr \<Rightarrow> pystr" where
  "name_or name stem = (case name of None \<Rightarrow> stem | Some n \<Rightarrow> if n = [] then stem else n)"

text \<open>
  \<open>decode_torrent_and_infohash\<close>, on the bytes \<open>raw\<close> read from the file and the \<open>stem\<close>
  of its path. The two digest functions \<open>hashlib.sha1(b).hexdigest()\<close> and
  \<open>hashlib.sha256(b).hexdigest()\<close> are parameters.
\<close>

definition decode_torrent_and_infohash ::
  "(bytes \<Rightarrow> pystr) \<Rightarrow> (bytes \<Rightarrow> pystr) \<Rightarrow> bytes \<Rightarrow> pystr
     \<Rightarrow> pyerr + ((bytes \<times> bval) list \<times> pystr option \<times> pystr)" where
  "decode_torrent_and_infohash sha1_hex sha256_hex raw stem =
     (case bdecode raw 0 True of
        Inl e \<Rightarrow> Inl e
      | Inr (val, idx, info_slice) \<Rightarrow>
          (case val of
             BDict d \<Rightarrow>
               (case info_slice of
                  None \<Rightarrow> Inr (d, None, name_or (info_name (dict_get d ''info'')) stem)
                | Some sl \<Rightarrow>
                    if is_v2 (dict_get d ''info'')
                    then Inr (d, Some (''btmh:1220'' @ sha256_hex sl),
                              name_or (info_name (dict_get d ''info'')) stem)
                    else Inr (d, Some (''btih:'' @ sha1_hex sl),
                              name_or (info_name (dict_get d ''info'')) stem))
           | _ \<Rightarrow> Inl BencodeError))"

text \<open>The trackers of \<open>announce-list\<close>, flattened: the byte strings of an inner list, or
  the item itself when it is a byte string.\<close>

definition item_trackers :: "bval \<Rightarrow> bytes list" where
  "item_trackers item =
     (case item of
        BList xs \<Rightarrow> List.map_filter as_bytes xs
      | BStr b \<Rightarrow> [b]
      | _ \<Rightarrow> [])"

definition flatten_trackers :: "bval list \<Rightarrow> bytes list" where
  "flatten_trackers ann_list = concat (map item_trackers ann_list)"

text \<open>The loop marked \<open># dedupe\<close>: \<open>seen\<close> starts empty, \<open>params\<close> already holds what
  was appended before the loop.\<close>

fun dedupe_loop :: "bytes list \<Rightarrow> pystr set \<Rightarrow> pystr list \<Rightarrow> pystr list" where
  "dedupe_loop [] seen params = params"
| "dedupe_loop (t # ts) seen params =
     (if utf8_decode Ignore t \<noteq> [] \<and> utf8_decode Ignore t \<notin> seen
      then dedupe_loop ts (insert (utf8_decode Ignore t) seen)
             (params @ [''tr='' @ quote ''/'' (utf8_decode Ignore t)])
      else dedupe_loop ts seen params)"

text \<open>\<open>infohash.split(':', 1)[1]\<close> for a string that holds a colon.\<close>

definition after_colon :: "pystr \<Rightarrow> pystr" where
  "after_colon s = drop 1 (dropWhile (\<lambda>c. c \<noteq> CHR '':'') s)"

definition magnet_params :: "(bytes \<times> bval) list \<Rightarrow> pystr \<Rightarrow> pystr \<Rightarrow> pystr list" where
  "magnet_params torrent_dict xt display_name =
     (let params0 = [''xt='' @ quote '':'' xt];
          params1 = (if display_name \<noteq> [] then params0 @ [''dn='' @ quote ''/'' display_name]
                     else params0);
          params2 = (case dict_get torrent_dict ''announce'' of
                       Some (BStr ann) \<Rightarrow>
                         params1 @ [''tr='' @ quote ''/'' (utf8_decode Ignore ann)]
                     | _ \<Rightarrow> params1)
      in case dict_get torrent_dict ''announce-list'' of
           Some (BList ann_list) \<Rightarrow> dedupe_loop (flatten_trackers ann_list) {} params2
         | _ \<Rightarrow> params2)"

definition magnet_from_info :: "(bytes \<times> bval) list \<Rightarrow> pystr \<Rightarrow> pystr \<Rightarrow> pystr option" where
  "magnet_from_info torrent_dict infohash display_name =
     (if infohash = [] then None
      else if startswith infohash ''btih:''
        then Some (''magnet:?'' @ py_join ''&''
               (magnet_params torrent_dict (''urn:btih:'' @ after_colon infohash) display_name))
      else if startswith infohash ''btmh:''
        then Some (''magnet:?'' @ py_join ''&''
               (magnet_params torrent_dict (''urn:btmh:'' @ after_colon infohash) display_name))
      else None)"

text \<open>
  \<open>b"" in v\<close>: the substring test when \<open>v\<close> is a byte string, membership among the
  elements of a list or the keys of a dictionary, and a \<open>TypeError\<close> when \<open>v\<close> is an
  integer.
\<close>

definition contains_empty :: "bval \<Rightarrow> pyerr + bool" where
  "contains_empty v =
     (case v of
        BInt n \<Rightarrow> Inl TypeError
      | BStr b \<Rightarrow> Inr (py_in [] b)
      | BList xs \<Rightarrow> Inr (BStr [] \<in> set xs)
      | BDict d \<Rightarrow> Inr (dict_get d [] \<noteq> None))"

text \<open>
  The nested function \<open>walk\<close> of \<open>torrent_file_list\<close>, with the set \<open>names\<close> it adds
  to passed through. Its argument \<open>prefix\<close> is never read and is left out. No handler
  surrounds the test \<open>b"" in v\<close>, so its \<open>TypeError\<close> leaves \<open>walk\<close>.
\<close>

function walk :: "(bytes \<times> bval) list \<Rightarrow> pystr set \<Rightarrow> pyerr + pystr set" where
  "walk [] names = Inr names"
| "walk ((k, v) # rest) names =
     (case contains_empty v of
        Inl e \<Rightarrow> Inl e
      | Inr True \<Rightarrow> walk rest (insert (utf8_decode Ignore k) names)
      | Inr False \<Rightarrow>
          (case v of
             BDict sub \<Rightarrow>
               (case walk sub names of
                  Inl e \<Rightarrow> Inl e
                | Inr names' \<Rightarrow> walk rest names')
           | _ \<Rightarrow> walk rest names))"
  by pat_completeness auto
termination
  by (relation "measure (\<lambda>(t, names). size_list (size_prod (\<lambda>k. 0) size) t)") auto

text \<open>Single-file mode: the \<open>try\<close> block swallows the exception that \<open>.decode\<close>
  raises on a name that is no byte string.\<close>

definition single_file_names :: "(bytes \<times> bval) list \<Rightarrow> pystr set \<Rightarrow> pystr set" where
  "single_file_names info names =
     (if dict_get info ''length'' \<noteq> None \<and> dict_get info ''name'' \<noteq> None then
        (case dict_get info ''name'' of
           Some (BStr nm) \<Rightarrow> insert (path_name [utf8_decode Ignore nm]) names
         | _ \<Rightarrow> names)
      else names)"

text \<open>Multi-file mode: the value of \<open>nm\<close> for one entry of \<open>files\<close>; \<open>None\<close> also stands for
  an entry that is skipped.\<close>

definition file_entry_name :: "bval \<Rightarrow> pystr option" where
  "file_entry_name f =
     (case f of
        BDict fd \<Rightarrow>
          (case dict_get fd ''path'' of
             Some (BList path) \<Rightarrow>
               (if List.map_filter as_bytes path \<noteq> []
                then Some (path_name (map (utf8_decode Ignore) (List.map_filter as_bytes path)))
                else None)
           | Some (BStr path) \<Rightarrow> Some (path_name [utf8_decode Ignore path])
           | _ \<Rightarrow> None)
      | _ \<Rightarrow> None)"

definition multi_file_names :: "(bytes \<times> bval) list \<Rightarrow> pystr set \<Rightarrow> pystr set" where
  "multi_file_names info names =
     (case dict_get info ''files'' of
        Some (BList fs) \<Rightarrow>
          foldl (\<lambda>acc f. case file_entry_name f of
                            Some nm \<Rightarrow> if nm \<noteq> [] then insert nm acc else acc
                          | None \<Rightarrow> acc) names fs
      | _ \<Rightarrow> names)"

definition torrent_file_list :: "(bytes \<times> bval) list \<Rightarrow> pyerr + pystr set" where
  "torrent_file_list torrent_dict =
     (case dict_get torrent_dict ''info'' of
        Some (BDict info) \<Rightarrow>
          (case dict_get info ''file tree'' of
             Some (BDict tree) \<Rightarrow>
               walk tree (multi_file_names info (single_file_names info {}))
           | _ \<Rightarrow> Inr (multi_file_names info (single_file_names info {})))
      | _ \<Rightarrow> Inr {})"

section \<open>Torrent records and the matcher\<close>

record torrent =
  path :: pystr
  display_name :: "pystr option"
  infohash :: "pystr option"
  magnet :: "pystr option"
  files :: "pystr set"

text \<open>
  The body of the loop of \<open>load_torrents\<close> for one file: any exception makes the loop skip
  the file (\<open>None\<close>). \<open>str.lower\<close> is a parameter.
\<close>

definition load_torrent ::
  "(bytes \<Rightarrow> pystr) \<Rightarrow> (bytes \<Rightarrow> pystr) \<Rightarrow> (pystr \<Rightarrow> pystr) \<Rightarrow> pystr \<Rightarrow> bytes \<Rightarrow> pystr
     \<Rightarrow> torrent option" where
  "load_torrent sha1_hex sha256_hex lower p raw stem =
     (case decode_torrent_and_infohash sha1_hex sha256_hex raw stem of
        Inl e \<Rightarrow> None
      | Inr (meta, ih, disp) \<Rightarrow>
          (case torrent_file_list meta of
             Inl e \<Rightarrow> None
           | Inr fs \<Rightarrow>
               Some \<lparr>path = p, display_name = Some disp, infohash = ih,
                     magnet = (case ih of
                                 Some h \<Rightarrow> if h \<noteq> [] then magnet_from_info meta h disp else None
                               | None \<Rightarrow> None),
                     files = lower ` fs\<rparr>))"

text \<open>\<open>for t in torrents: if p(t): return t\<close>, with \<open>None\<close> when the loop runs out.\<close>

fun first_match :: "('a \<Rightarrow> bool) \<Rightarrow> 'a list \<Rightarrow> 'a option" where
  "first_match p [] = None"
| "first_match p (t # ts) = (if p t then Some t else first_match p ts)"

text \<open>\<open>(t["display_name"] or "").lower()\<close>.\<close>

definition torrent_name :: "(pystr \<Rightarrow> pystr) \<Rightarrow> torrent \<Rightarrow> pystr" where
  "torrent_name lower t = lower (case display_name t of None \<Rightarrow> [] | Some n \<Rightarrow> n)"

text \<open>The conditions of the three loops, for the lower-cased directory name.\<close>

definition tier1 :: "(pystr \<Rightarrow> pystr) \<Rightarrow> pystr \<Rightarrow> torrent \<Rightarrow> bool" where
  "tier1 lower dir_name t = (torrent_name lower t \<noteq> [] \<and> torrent_name lower t = dir_name)"

definition tier2 :: "(pystr \<Rightarrow> pystr) \<Rightarrow> pystr \<Rightarrow> torrent \<Rightarrow> bool" where
  "tier2 lower dir_name t =
     (torrent_name lower t \<noteq> []
      \<and> (py_in (torrent_name lower t) dir_name \<or> py_in dir_name (torrent_name lower t)))"

definition tier3 :: "(pystr \<Rightarrow> pystr) \<Rightarrow> pystr \<Rightarrow> torrent \<Rightarrow> bool" where
  "tier3 lower dir_name t = (\<exists>f \<in> files t. py_in dir_name (lower f))"

text \<open>\<open>match_movie_to_torrent\<close>, on the name of the movie directory; \<open>str.lower\<close> is a
  parameter.\<close>

definition match_movie_to_torrent ::
  "(pystr \<Rightarrow> pystr) \<Rightarrow> pystr \<Rightarrow> torrent list \<Rightarrow> torrent option" where
  "match_movie_to_torrent lower movie_dir_name torrents =
     (case first_match (tier1 lower (lower movie_dir_name)) torrents of
        Some t \<Rightarrow> Some t
      | None \<Rightarrow>
          (case first_match (tier2 lower (lower movie_dir_name)) torrents of
             Some t \<Rightarrow> Some t
           | None \<Rightarrow> first_match (tier3 lower (lower movie_dir_name)) torrents))"

text \<open>\<open>str.lower\<close> restricted to ASCII letters, which is what it does on ASCII text; used
  for concrete instances only.\<close>

definition ascii_lower :: "pystr \<Rightarrow> pystr" where
  "ascii_lower s =
     map (\<lambda>c. if CHR ''A'' \<le> c \<and> c \<le> CHR ''Z'' then char_of (byte c + 32) else c) s"

section \<open>Notions used to state the properties\<close>

text \<open>The elements of a list in the order of their first occurrences, each once: what
  ``duplicates are emitted at most once, first occurrence order preserved'' asks of the
  tracker parameters.\<close>

definition first_occurrences :: "'a list \<Rightarrow> 'a list" where
  "first_occurrences xs = rev (remdups (rev xs))"

text \<open>What the captured span must be for the value \<open>v\<close> stored under \<open>info\<close>: the bytes
  \<open>[s, t)\<close> of the buffer, where \<open>s\<close> is the offset at which decoding the key \<open>info\<close>
  ended and \<open>t\<close> the offset at which decoding the value \<open>v\<close> from \<open>s\<close> ended.\<close>

definition is_info_span :: "bytes \<Rightarrow> bval \<Rightarrow> bytes option \<Rightarrow> bool" where
  "is_info_span data v sp =
     (\<exists>k s t. sp = Some (py_slice data s t) \<and> s < t \<and> t \<le> length data
        \<and> bdecode data k False = Inr (BStr ''info'', s, None)
        \<and> bdecode data s False = Inr (v, t, None))"

text \<open>The depth of nesting of a value: 1 for an integer, a byte string and an empty
  container, and one more than its deepest element or value for a list or dictionary.\<close>

fun depth :: "bval \<Rightarrow> nat" where
  "depth (BInt n) = 1"
| "depth (BStr b) = 1"
| "depth (BList xs) = Suc (fold max (map depth xs) 0)"
| "depth (BDict d) = Suc (fold max (map (\<lambda>kv. depth (snd kv)) d) 0)"

text \<open>Lists nested \<open>n + 1\<close> deep, \<open>[[...[]...]]\<close>, and their encoding \<open>l...le...e\<close>.\<close>

fun deep_list :: "nat \<Rightarrow> bval" where
  "deep_list 0 = BList []"
| "deep_list (Suc n) = BList [deep_list n]"

definition deep_bytes :: "nat \<Rightarrow> bytes" where
  "deep_bytes n = replicate (Suc n) (CHR ''l'') @ replicate (Suc n) (CHR ''e'')"

text \<open>A byte string \<open>x\<close> encodes the value \<open>v\<close> when decoding \<open>x\<close> from its start yields \<open>v\<close>
  and consumes exactly the bytes of \<open>x\<close>.\<close>

definition encodes :: "bytes \<Rightarrow> bval \<Rightarrow> bool" where
  "encodes x v = (bdecode x 0 False = Inr (v, length x, None))"

text \<open>The bytes of a dictionary whose entries, in byte order, are the given encodings of
  keys and values.\<close>

definition dict_bytes :: "(bytes \<times> bytes) list \<Rightarrow> bytes" where
  "dict_bytes ebs = ''d'' @ concat (map (\<lambda>(kb, vb). kb @ vb) ebs) @ ''e''"

text \<open>The dictionary built by the assignments \<open>d[k] = v\<close> for the given entries in order.\<close>

definition assign_all :: "(bytes \<times> bval) list \<Rightarrow> (bytes \<times> bval) list \<Rightarrow> (bytes \<times> bval) list" where
  "assign_all d kvs = foldl (\<lambda>d (k, v). dict_set d k v) d kvs"

section \<open>Basic facts about the decoder\<close>

lemma py_slice_one: "i < length data \<Longrightarrow> py_slice data i (Suc i) = [data ! i]"
  by (simp add: py_slice_def take_Suc_conv_app_nth hd_drop_conv_nth take_Suc)

lemma py_slice_one_out: "length data \<le> i \<Longrightarrow> py_slice data i (Suc i) = []"
  by (simp add: py_slice_def)

lemma py_slice_one_eq: "py_slice data i (Suc i) = [c] \<longleftrightarrow> i < length data \<and> data ! i = c"
  by (cases "i < length data") (simp_all add: py_slice_one py_slice_one_out)

lemma py_slice_app:
  "b \<le> length x \<Longrightarrow> py_slice (p @ x @ q) (length p + a) (length p + b) = py_slice x a b"
  by (simp add: py_slice_def)

lemma py_index_SomeD:
  assumes "py_index data c i = Some j"
  shows "i \<le> j" and "j < length data" and "data ! j = c"
proof -
  let ?r = "drop i data"
  from assms have mem: "c \<in> set ?r"
    and j: "j = i + length (takeWhile (\<lambda>x. x \<noteq> c) ?r)"
    by (auto simp: py_index_def split: if_splits)
  from mem obtain a b where ab: "?r = a @ c # b" and na: "c \<notin> set a"
    by (meson split_list_first)
  from na have "takeWhile (\<lambda>x. x \<noteq> c) (a @ c # b) = a"
    by (auto simp: takeWhile_tail)
  with j ab have ja: "j = i + length a" by simp
  show "i \<le> j" using ja by simp
  have "length ?r = length a + Suc (length b)" by (simp add: ab)
  then show jl: "j < length data" using ja by simp
  have "?r ! length a = c" by (simp add: ab)
  then show "data ! j = c" using ja jl by simp
qed

lemma py_index_app:
  assumes "py_index x c i = Some j"
  shows "py_index (p @ x @ q) c (length p + i) = Some (length p + j)"
proof -
  from assms have mem: "c \<in> set (drop i x)"
    and j: "j = i + length (takeWhile (\<lambda>y. y \<noteq> c) (drop i x))"
    by (auto simp: py_index_def split: if_splits)
  have d: "drop (length p + i) (p @ x @ q) = drop i x @ q"
    using mem by (cases "i \<le> length x") auto
  from mem obtain a b where ab: "drop i x = a @ c # b" and "c \<notin> set a"
    by (meson split_list_first)
  then have "takeWhile (\<lambda>y. y \<noteq> c) (drop i x @ q) = takeWhile (\<lambda>y. y \<noteq> c) (drop i x)"
    by (auto simp: takeWhile_tail)
  then show ?thesis using mem j by (simp add: py_index_def d)
qed

lemma digit_not_space: "is_digit c \<Longrightarrow> \<not> is_space c"
  by (auto simp: is_digit_def is_space_def)

lemma digit_not_sign: "is_digit c \<Longrightarrow> c \<noteq> CHR ''-'' \<and> c \<noteq> CHR ''+'' \<and> c \<noteq> CHR '':'' \<and> c \<noteq> CHR ''e''"
  by (auto simp: is_digit_def)

lemma py_int_digit_nonneg:
  assumes "is_digit c" and "py_int (c # r) = Some n"
  shows "0 \<le> n"
proof -
  from assms(1) have "dropWhile is_space (c # r) = c # r"
    by (simp add: digit_not_space)
  moreover from assms(1) have "take 1 (c # r) \<noteq> ''-''"
    by (simp add: digit_not_sign)
  ultimately show ?thesis using assms(2)
    by (auto simp: py_int_def Let_def split: if_splits)
qed

lemma py_slice_Cons:
  assumes "i < j" and "i < length data"
  shows "py_slice data i j = data ! i # py_slice data (Suc i) j"
proof -
  from assms(1) have "j - i = Suc (j - Suc i)" by simp
  moreover from assms(2) have "drop i data = data ! i # drop (Suc i) data"
    by (simp add: Cons_nth_drop_Suc)
  ultimately show ?thesis by (simp add: py_slice_def)
qed

lemma in_0_9_one: "in_0_9 [c] = is_digit c"
  by (simp add: in_0_9_def)

lemma decode_str_result:
  assumes i: "i < length data" and dg: "is_digit (data ! i)"
    and res: "decode_str data i = Inr (v, e, s)"
  shows "\<exists>j len. py_index data (CHR '':'') i = Some j \<and> i < j
           \<and> py_int (py_slice data i j) = Some (int len)
           \<and> e = j + 1 + len \<and> v = BStr (py_slice data (j + 1) e) \<and> s = None"
proof -
  from res obtain j n where j: "py_index data (CHR '':'') i = Some j"
    and n: "py_int (py_slice data i j) = Some n"
    and e: "e = nat (int (j + 1) + n)" and v: "v = BStr (py_slice data (j + 1) e)" and s: "s = None"
    by (auto simp: decode_str_def split: option.splits)
  from py_index_SomeD [OF j] dg have ij: "i < j"
    by (metis digit_not_sign le_neq_implies_less)
  then have "py_slice data i j = data ! i # py_slice data (Suc i) j"
    using i by (rule py_slice_Cons)
  with n dg have "0 \<le> n" by (simp add: py_int_digit_nonneg)
  then obtain len where "n = int len" using nonneg_int_cases by blast
  with j n e v s ij show ?thesis by auto
qed

lemma and_then_Inr:
  "and_then m f = Some (Inr y) \<Longrightarrow> \<exists>x. m = Some (Inr x) \<and> f x = Some (Inr y)"
  by (auto simp: and_then_def split: option.splits sum.splits)

lemma and_then_Some:
  "and_then m f = Some r \<Longrightarrow>
     (\<exists>e. m = Some (Inl e) \<and> r = Inl e) \<or> (\<exists>x. m = Some (Inr x) \<and> f x = Some r)"
  by (auto simp: and_then_def split: option.splits sum.splits)

lemma decode_int_result:
  assumes "decode_int data i = Inr (v, e, s)"
  shows "\<exists>j num. py_index data (CHR ''e'') i = Some j \<and> py_int (py_slice data (i + 1) j) = Some num
           \<and> v = BInt num \<and> e = j + 1 \<and> s = None"
  using assms by (auto simp: decode_int_def split: option.splits)

lemma bdecode_fuel_Suc_Inr:
  assumes "bdecode_fuel (Suc n) data i cap = Some (Inr (v, e, s))"
  shows "i < length data \<and>
    (data ! i = CHR ''i'' \<and> decode_int data i = Inr (v, e, s)
     \<or> data ! i = CHR ''l'' \<and> list_loop n data (Suc i) cap [] None = Some (Inr (v, e, s))
     \<or> data ! i = CHR ''d'' \<and> dict_loop n data (Suc i) cap [] None = Some (Inr (v, e, s))
     \<or> is_digit (data ! i) \<and> decode_str data i = Inr (v, e, s))"
proof -
  from assms have i: "i < length data" by (auto split: if_splits)
  then have sl: "py_slice data i (Suc i) = [data ! i]" by (rule py_slice_one)
  from assms i show ?thesis
    by (auto simp: sl in_0_9_one split: if_splits)
qed

lemma list_loop_Suc_Inr:
  assumes "list_loop (Suc n) data i cap lst sl = Some (Inr (v, e, s))"
  shows "(i < length data \<and> data ! i = CHR ''e'' \<and> v = BList lst \<and> e = Suc i \<and> s = sl)
    \<or> (\<exists>w i' sub. bdecode_fuel n data i cap = Some (Inr (w, i', sub))
          \<and> list_loop n data i' cap (lst @ [w]) (py_or sl sub) = Some (Inr (v, e, s)))"
proof (cases "py_slice data i (Suc i) = ''e''")
  case True
  then have "i < length data \<and> data ! i = CHR ''e''" by (simp add: py_slice_one_eq)
  with assms True show ?thesis by simp
next
  case False
  with assms show ?thesis by (auto dest!: and_then_Inr)
qed

lemma dict_loop_Suc_Inr:
  assumes "dict_loop (Suc n) data i cap d sl = Some (Inr (v, e, s))"
  shows "(i < length data \<and> data ! i = CHR ''e'' \<and> v = BDict d \<and> e = Suc i \<and> s = sl)
    \<or> (\<exists>k i1 ks w i2 sub. bdecode_fuel n data i False = Some (Inr (BStr k, i1, ks))
          \<and> bdecode_fuel n data i1 (cap \<and> k \<noteq> ''info'') = Some (Inr (w, i2, sub))
          \<and> dict_loop n data i2 cap (dict_set d k w)
               (if cap \<and> k = ''info'' then Some (py_slice data i1 i2) else py_or sl sub)
             = Some (Inr (v, e, s)))"
proof (cases "py_slice data i (Suc i) = ''e''")
  case True
  then have "i < length data \<and> data ! i = CHR ''e''" by (simp add: py_slice_one_eq)
  with assms True show ?thesis by simp
next
  case False
  with assms obtain k i1 ks where k: "bdecode_fuel n data i False = Some (Inr (k, i1, ks))"
    and rest: "(case k of
            BStr k_bytes \<Rightarrow>
              (if cap \<and> k_bytes = ''info'' then
                 and_then (bdecode_fuel n data i1 False) (\<lambda>(v, i2, _).
                   dict_loop n data i2 cap (dict_set d k_bytes v)
                     (Some (py_slice data i1 i2)))
               else
                 and_then (bdecode_fuel n data i1 cap) (\<lambda>(v, i2, sub_info).
                   dict_loop n data i2 cap (dict_set d k_bytes v)
                     (py_or sl sub_info)))
          | _ \<Rightarrow> Some (Inl BencodeError)) = Some (Inr (v, e, s))"
    by (auto dest!: and_then_Inr)
  from rest obtain kb where kb: "k = BStr kb" by (cases k) auto
  show ?thesis
  proof (cases "cap \<and> kb = ''info''")
    case True
    with rest kb k show ?thesis by (auto dest!: and_then_Inr)
  next
    case False
    with rest kb k show ?thesis by (auto dest!: and_then_Inr)
  qed
qed

lemma decode_progress:
  "(\<forall>data i cap v e s. bdecode_fuel n data i cap = Some (Inr (v, e, s))
       \<longrightarrow> i < e \<and> i < length data)
   \<and> (\<forall>data i cap lst sl v e s. list_loop n data i cap lst sl = Some (Inr (v, e, s))
       \<longrightarrow> i < e \<and> e \<le> length data \<and> (\<exists>l. v = BList l))
   \<and> (\<forall>data i cap d sl v e s. dict_loop n data i cap d sl = Some (Inr (v, e, s))
       \<longrightarrow> i < e \<and> e \<le> length data \<and> (\<exists>l. v = BDict l))"
proof (induction n)
  case 0
  show ?case by simp
next
  case (Suc n)
  note IH1 = Suc.IH [THEN conjunct1, rule_format]
  note IH2 = Suc.IH [THEN conjunct2, THEN conjunct1, rule_format]
  note IH3 = Suc.IH [THEN conjunct2, THEN conjunct2, rule_format]
  have 1: "i < e \<and> i < length data"
    if "bdecode_fuel (Suc n) data i cap = Some (Inr (v, e, s))" for data i cap v e s
  proof -
    from bdecode_fuel_Suc_Inr [OF that] have i: "i < length data"
      and c: "data ! i = CHR ''i'' \<and> decode_int data i = Inr (v, e, s)
     \<or> data ! i = CHR ''l'' \<and> list_loop n data (Suc i) cap [] None = Some (Inr (v, e, s))
     \<or> data ! i = CHR ''d'' \<and> dict_loop n data (Suc i) cap [] None = Some (Inr (v, e, s))
     \<or> is_digit (data ! i) \<and> decode_str data i = Inr (v, e, s)" by blast+
    from c have "i < e"
    proof (elim disjE conjE)
      assume "decode_int data i = Inr (v, e, s)"
      from decode_int_result [OF this] show ?thesis
        by (auto dest: py_index_SomeD)
    next
      assume "list_loop n data (Suc i) cap [] None = Some (Inr (v, e, s))"
      from IH2 [OF this] show ?thesis by simp
    next
      assume "dict_loop n data (Suc i) cap [] None = Some (Inr (v, e, s))"
      from IH3 [OF this] show ?thesis by simp
    next
      assume "is_digit (data ! i)" and "decode_str data i = Inr (v, e, s)"
      from decode_str_result [OF i this] show ?thesis by auto
    qed
    with i show ?thesis by simp
  qed
  have 2: "i < e \<and> e \<le> length data \<and> (\<exists>l. v = BList l)"
    if "list_loop (Suc n) data i cap lst sl = Some (Inr (v, e, s))" for data i cap lst sl v e s
    using list_loop_Suc_Inr [OF that]
  proof (elim disjE exE conjE)
    assume "i < length data" "v = BList lst" "e = Suc i"
    then show ?thesis by simp
  next
    fix w i' sub
    assume a: "bdecode_fuel n data i cap = Some (Inr (w, i', sub))"
      and b: "list_loop n data i' cap (lst @ [w]) (py_or sl sub) = Some (Inr (v, e, s))"
    from IH1 [OF a] IH2 [OF b] show ?thesis by auto
  qed
  have 3: "i < e \<and> e \<le> length data \<and> (\<exists>l. v = BDict l)"
    if "dict_loop (Suc n) data i cap d sl = Some (Inr (v, e, s))" for data i cap d sl v e s
    using dict_loop_Suc_Inr [OF that]
  proof (elim disjE exE conjE)
    assume "i < length data" "v = BDict d" "e = Suc i"
    then show ?thesis by simp
  next
    fix k i1 ks w i2 sub
    assume a: "bdecode_fuel n data i False = Some (Inr (BStr k, i1, ks))"
      and b: "bdecode_fuel n data i1 (cap \<and> k \<noteq> ''info'') = Some (Inr (w, i2, sub))"
      and c: "dict_loop n data i2 cap (dict_set d k w)
               (if cap \<and> k = ''info'' then Some (py_slice data i1 i2) else py_or sl sub)
             = Some (Inr (v, e, s))"
    from IH1 [OF a] IH1 [OF b] IH3 [OF c] show ?thesis by auto
  qed
  show ?case
    apply (rule conjI)
     apply (intro allI impI)
     apply (erule 1)
    apply (rule conjI)
     apply (intro allI impI)
     apply (erule 2)
    apply (intro allI impI)
    apply (erule 3)
    done
qed

lemma bdecode_fuel_progress:
  "bdecode_fuel n data i cap = Some (Inr (v, e, s)) \<Longrightarrow> i < e \<and> i < length data"
  by (rule decode_progress [of n, THEN conjunct1, rule_format])

lemma list_loop_progress:
  "list_loop n data i cap lst sl = Some (Inr (v, e, s))
     \<Longrightarrow> i < e \<and> e \<le> length data \<and> (\<exists>l. v = BList l)"
  by (rule decode_progress [of n, THEN conjunct2, THEN conjunct1, rule_format])

lemma dict_loop_progress:
  "dict_loop n data i cap d sl = Some (Inr (v, e, s))
     \<Longrightarrow> i < e \<and> e \<le> length data \<and> (\<exists>l. v = BDict l)"
  by (rule decode_progress [of n, THEN conjunct2, THEN conjunct2, rule_format])

lemma and_then_mono:
  assumes "and_then m f = Some r"
    and "\<And>x. m = Some x \<Longrightarrow> m' = Some x"
    and "\<And>x. m = Some (Inr x) \<Longrightarrow> f x = Some r \<Longrightarrow> f' x = Some r"
  shows "and_then m' f' = Some r"
  using assms by (auto simp: and_then_def split: option.splits sum.splits)

lemma fuel_mono_Suc:
  "(\<forall>data i cap r. bdecode_fuel n data i cap = Some r
       \<longrightarrow> bdecode_fuel (Suc n) data i cap = Some r)
   \<and> (\<forall>data i cap lst sl r. list_loop n data i cap lst sl = Some r
       \<longrightarrow> list_loop (Suc n) data i cap lst sl = Some r)
   \<and> (\<forall>data i cap d sl r. dict_loop n data i cap d sl = Some r
       \<longrightarrow> dict_loop (Suc n) data i cap d sl = Some r)"
proof (induction n)
  case 0
  show ?case by simp
next
  case (Suc n)
  note IH1 = Suc.IH [THEN conjunct1, rule_format]
  note IH2 = Suc.IH [THEN conjunct2, THEN conjunct1, rule_format]
  note IH3 = Suc.IH [THEN conjunct2, THEN conjunct2, rule_format]
  have 1: "bdecode_fuel (Suc (Suc n)) data i cap = Some r"
    if h: "bdecode_fuel (Suc n) data i cap = Some r" for data i cap r
  proof -
    have "list_loop n data (i + 1) cap [] None = Some r
      \<Longrightarrow> list_loop (Suc n) data (i + 1) cap [] None = Some r" by (rule IH2)
    moreover have "dict_loop n data (i + 1) cap [] None = Some r
      \<Longrightarrow> dict_loop (Suc n) data (i + 1) cap [] None = Some r" by (rule IH3)
    ultimately show ?thesis using h
      by (auto simp del: list_loop.simps dict_loop.simps split: if_splits)
  qed
  have 2: "list_loop (Suc (Suc n)) data i cap lst sl = Some r"
    if h: "list_loop (Suc n) data i cap lst sl = Some r" for data i cap lst sl r
  proof (cases "py_slice data i (i + 1) = ''e''")
    case True
    then have "\<And>m. list_loop (Suc m) data i cap lst sl = Some (Inr (BList lst, i + 1, sl))"
      by (simp del: bdecode_fuel.simps)
    with h show ?thesis by simp
  next
    case False
    have e: "\<And>m. list_loop (Suc m) data i cap lst sl =
        and_then (bdecode_fuel m data i cap) (\<lambda>(v, i', info_sub).
          list_loop m data i' cap (lst @ [v]) (py_or sl info_sub))"
      by (rule trans [OF list_loop.simps(2) if_P [OF False]])
    from h have "and_then (bdecode_fuel n data i cap) (\<lambda>(v, i', info_sub).
          list_loop n data i' cap (lst @ [v]) (py_or sl info_sub)) = Some r"
      by (simp only: e)
    then have "and_then (bdecode_fuel (Suc n) data i cap) (\<lambda>(v, i', info_sub).
          list_loop (Suc n) data i' cap (lst @ [v]) (py_or sl info_sub)) = Some r"
      by (rule and_then_mono) (auto simp only: IH1 IH2 split: prod.splits)
    then show ?thesis by (simp only: e)
  qed
  have 3: "dict_loop (Suc (Suc n)) data i cap d sl = Some r"
    if h: "dict_loop (Suc n) data i cap d sl = Some r" for data i cap d sl r
  proof (cases "py_slice data i (i + 1) = ''e''")
    case True
    then have "\<And>m. dict_loop (Suc m) data i cap d sl = Some (Inr (BDict d, i + 1, sl))"
      by (simp del: bdecode_fuel.simps)
    with h show ?thesis by simp
  next
    case False
    let ?body = "\<lambda>m (k, i1, u :: bytes option).
          case k of
            BStr k_bytes \<Rightarrow>
              (if cap \<and> k_bytes = ''info'' then
                 and_then (bdecode_fuel m data i1 False) (\<lambda>(v, i2, _).
                   dict_loop m data i2 cap (dict_set d k_bytes v)
                     (Some (py_slice data i1 i2)))
               else
                 and_then (bdecode_fuel m data i1 cap) (\<lambda>(v, i2, sub_info).
                   dict_loop m data i2 cap (dict_set d k_bytes v)
                     (py_or sl sub_info)))
          | _ \<Rightarrow> Some (Inl BencodeError)"
    have e: "\<And>m. dict_loop (Suc m) data i cap d sl =
        and_then (bdecode_fuel m data i False) (?body m)"
      by (rule trans [OF dict_loop.simps(2) if_P [OF False]])
    from h have "and_then (bdecode_fuel n data i False) (?body n) = Some r"
      by (simp only: e)
    then have "and_then (bdecode_fuel (Suc n) data i False) (?body (Suc n)) = Some r"
    proof (rule and_then_mono)
      fix x assume "bdecode_fuel n data i False = Some x"
      then show "bdecode_fuel (Suc n) data i False = Some x" by (rule IH1)
    next
      fix x assume b: "?body n x = Some r"
      obtain k i1 u where x: "x = (k, i1, u)" by (cases x)
      show "?body (Suc n) x = Some r"
      proof (cases k)
        case (BStr kb)
        show ?thesis
        proof (cases "cap \<and> kb = ''info''")
          case True
          with b x BStr have "and_then (bdecode_fuel n data i1 False) (\<lambda>(v, i2, _).
                   dict_loop n data i2 cap (dict_set d kb v)
                     (Some (py_slice data i1 i2))) = Some r" by simp
          then have "and_then (bdecode_fuel (Suc n) data i1 False) (\<lambda>(v, i2, _).
                   dict_loop (Suc n) data i2 cap (dict_set d kb v)
                     (Some (py_slice data i1 i2))) = Some r"
            by (rule and_then_mono) (auto simp only: IH1 IH3 split: prod.splits)
          with True x BStr show ?thesis by (simp del: bdecode_fuel.simps dict_loop.simps)
        next
          case False
          with b x BStr have "and_then (bdecode_fuel n data i1 cap) (\<lambda>(v, i2, sub_info).
                   dict_loop n data i2 cap (dict_set d kb v)
                     (py_or sl sub_info)) = Some r" by auto
          then have "and_then (bdecode_fuel (Suc n) data i1 cap) (\<lambda>(v, i2, sub_info).
                   dict_loop (Suc n) data i2 cap (dict_set d kb v)
                     (py_or sl sub_info)) = Some r"
            by (rule and_then_mono) (auto simp only: IH1 IH3 split: prod.splits)
          with False x BStr show ?thesis by (auto simp del: bdecode_fuel.simps dict_loop.simps)
        qed
      qed (use b x in simp_all)
    qed
    then show ?thesis by (simp only: e)
  qed
  show ?case
    apply (rule conjI)
     apply (intro allI impI)
     apply (erule 1)
    apply (rule conjI)
     apply (intro allI impI)
     apply (erule 2)
    apply (intro allI impI)
    apply (erule 3)
    done
qed

lemma bdecode_fuel_mono:
  "bdecode_fuel n data i cap = Some r \<Longrightarrow> n \<le> m \<Longrightarrow> bdecode_fuel m data i cap = Some r"
  by (induction m) (auto simp: le_Suc_eq fuel_mono_Suc [THEN conjunct1, rule_format]
      simp del: bdecode_fuel.simps)

lemma list_loop_mono:
  "list_loop n data i cap lst sl = Some r \<Longrightarrow> n \<le> m \<Longrightarrow> list_loop m data i cap lst sl = Some r"
  by (induction m) (auto simp: le_Suc_eq fuel_mono_Suc [THEN conjunct2, THEN conjunct1, rule_format]
      simp del: list_loop.simps)

lemma dict_loop_mono:
  "dict_loop n data i cap d sl = Some r \<Longrightarrow> n \<le> m \<Longrightarrow> dict_loop m data i cap d sl = Some r"
  by (induction m) (auto simp: le_Suc_eq fuel_mono_Suc [THEN conjunct2, THEN conjunct2, rule_format]
      simp del: dict_loop.simps)

lemma and_then_not_None:
  assumes "m \<noteq> None" and "\<And>x. m = Some (Inr x) \<Longrightarrow> f x \<noteq> None"
  shows "and_then m f \<noteq> None"
  using assms by (auto simp: and_then_def split: option.splits sum.splits)

lemma fuel_enough:
  "(\<forall>data i cap. 2 * (length data - i) + 1 \<le> n \<longrightarrow> bdecode_fuel n data i cap \<noteq> None)
   \<and> (\<forall>data i cap lst sl. 2 * (length data - i) + 2 \<le> n
         \<longrightarrow> list_loop n data i cap lst sl \<noteq> None)
   \<and> (\<forall>data i cap d sl. 2 * (length data - i) + 2 \<le> n
         \<longrightarrow> dict_loop n data i cap d sl \<noteq> None)"
proof (induction n)
  case 0
  show ?case by simp
next
  case (Suc n)
  note IH1 = Suc.IH [THEN conjunct1, rule_format]
  note IH2 = Suc.IH [THEN conjunct2, THEN conjunct1, rule_format]
  note IH3 = Suc.IH [THEN conjunct2, THEN conjunct2, rule_format]
  have 1: "bdecode_fuel (Suc n) data i cap \<noteq> None"
    if h: "2 * (length data - i) + 1 \<le> Suc n" for data i cap
  proof (cases "i < length data")
    case True
    with h have "2 * (length data - (i + 1)) + 2 \<le> n" by simp
    then have "list_loop n data (i + 1) cap [] None \<noteq> None"
      and "dict_loop n data (i + 1) cap [] None \<noteq> None"
      by (rule IH2, rule IH3)
    then show ?thesis by (auto simp del: list_loop.simps dict_loop.simps)
  next
    case False
    then show ?thesis by simp
  qed
  have 2: "list_loop (Suc n) data i cap lst sl \<noteq> None"
    if h: "2 * (length data - i) + 2 \<le> Suc n" for data i cap lst sl
  proof (cases "py_slice data i (i + 1) = ''e''")
    case True
    then show ?thesis by (simp del: bdecode_fuel.simps)
  next
    case False
    have e: "list_loop (Suc n) data i cap lst sl =
        and_then (bdecode_fuel n data i cap) (\<lambda>(v, i', info_sub).
          list_loop n data i' cap (lst @ [v]) (py_or sl info_sub))"
      by (rule trans [OF list_loop.simps(2) if_P [OF False]])
    show ?thesis unfolding e
    proof (rule and_then_not_None)
      from h show "bdecode_fuel n data i cap \<noteq> None" by (intro IH1) simp
    next
      fix x assume x: "bdecode_fuel n data i cap = Some (Inr x)"
      obtain v i' sub where xe: "x = (v, i', sub)" by (cases x)
      from bdecode_fuel_progress [OF x [unfolded xe]] h
      have "2 * (length data - i') + 2 \<le> n" by auto
      then have "list_loop n data i' cap (lst @ [v]) (py_or sl sub) \<noteq> None" by (rule IH2)
      then show "(case x of (v, i', info_sub) \<Rightarrow>
          list_loop n data i' cap (lst @ [v]) (py_or sl info_sub)) \<noteq> None"
        by (simp add: xe)
    qed
  qed
  have 3: "dict_loop (Suc n) data i cap d sl \<noteq> None"
    if h: "2 * (length data - i) + 2 \<le> Suc n" for data i cap d sl
  proof (cases "py_slice data i (i + 1) = ''e''")
    case True
    then show ?thesis by (simp del: bdecode_fuel.simps)
  next
    case False
    let ?body = "\<lambda>(k, i1, u :: bytes option).
          case k of
            BStr k_bytes \<Rightarrow>
              (if cap \<and> k_bytes = ''info'' then
                 and_then (bdecode_fuel n data i1 False) (\<lambda>(v, i2, _).
                   dict_loop n data i2 cap (dict_set d k_bytes v)
                     (Some (py_slice data i1 i2)))
               else
                 and_then (bdecode_fuel n data i1 cap) (\<lambda>(v, i2, sub_info).
                   dict_loop n data i2 cap (dict_set d k_bytes v)
                     (py_or sl sub_info)))
          | _ \<Rightarrow> Some (Inl BencodeError)"
    have e: "dict_loop (Suc n) data i cap d sl =
        and_then (bdecode_fuel n data i False) ?body"
      by (rule trans [OF dict_loop.simps(2) if_P [OF False]])
    show ?thesis unfolding e
    proof (rule and_then_not_None)
      from h show "bdecode_fuel n data i False \<noteq> None" by (intro IH1) simp
    next
      fix x assume x: "bdecode_fuel n data i False = Some (Inr x)"
      obtain k i1 u where xe: "x = (k, i1, u)" by (cases x)
      from bdecode_fuel_progress [OF x [unfolded xe]] h
      have i1: "2 * (length data - i1) + 3 \<le> n" by auto
      have inner: "and_then (bdecode_fuel n data i1 c) (\<lambda>(v, i2, sub).
                   dict_loop n data i2 cap (dict_set d kb v) (g i2 sub)) \<noteq> None" for c kb g
      proof (rule and_then_not_None)
        from i1 show "bdecode_fuel n data i1 c \<noteq> None" by (intro IH1) simp
      next
        fix y assume y: "bdecode_fuel n data i1 c = Some (Inr y)"
        obtain v i2 sub where ye: "y = (v, i2, sub)" by (cases y)
        from bdecode_fuel_progress [OF y [unfolded ye]] i1
        have "2 * (length data - i2) + 2 \<le> n" by auto
        then have "dict_loop n data i2 cap (dict_set d kb v) (g i2 sub) \<noteq> None" by (rule IH3)
        then show "(case y of (v, i2, sub) \<Rightarrow>
            dict_loop n data i2 cap (dict_set d kb v) (g i2 sub)) \<noteq> None"
          by (simp add: ye)
      qed
      show "?body x \<noteq> None"
      proof (cases k)
        case (BStr kb)
        show ?thesis
        proof (cases "cap \<and> kb = ''info''")
          case True
          then show ?thesis
            using inner [of False kb "\<lambda>i2 sub. Some (py_slice data i1 i2)"]
            by (simp add: xe BStr del: dict_loop.simps bdecode_fuel.simps)
        next
          case False
          then show ?thesis
            using inner [of cap kb "\<lambda>i2 sub. py_or sl sub"]
            by (auto simp add: xe BStr simp del: dict_loop.simps bdecode_fuel.simps)
        qed
      qed (simp_all add: xe)
    qed
  qed
  show ?case
    apply (rule conjI)
     apply (intro allI impI)
     apply (erule 1)
    apply (rule conjI)
     apply (intro allI impI)
     apply (erule 2)
    apply (intro allI impI)
    apply (erule 3)
    done
qed

lemma bdecode_fuel_enough:
  "\<exists>r. bdecode_fuel (2 * length data + 1) data i cap = Some r"
proof -
  have "2 * (length data - i) + 1 \<le> 2 * length data + 1" by simp
  from fuel_enough [THEN conjunct1, rule_format, OF this]
  show ?thesis by blast
qed

lemma bdecode_eqI:
  assumes "bdecode_fuel n data i cap = Some r"
  shows "bdecode data i cap = r"
proof -
  obtain r' where r': "bdecode_fuel (2 * length data + 1) data i cap = Some r'"
    using bdecode_fuel_enough by blast
  let ?m = "max n (2 * length data + 1)"
  from assms have "bdecode_fuel ?m data i cap = Some r" by (rule bdecode_fuel_mono) simp
  moreover from r' have "bdecode_fuel ?m data i cap = Some r'" by (rule bdecode_fuel_mono) simp
  ultimately have "r' = r" by simp
  with r' show ?thesis by (simp add: bdecode_def)
qed

lemma bdecode_fuel_bdecode:
  "bdecode_fuel (2 * length data + 1) data i cap = Some (bdecode data i cap)"
  using bdecode_fuel_enough [of data i cap] by (auto simp: bdecode_def)

section \<open>Properties of the decoder and of the indexer\<close>

subsection \<open>Integer items\<close>

lemma digits_us_all_digits: "list_all is_digit ds \<Longrightarrow> ds \<noteq> [] \<Longrightarrow> digits_us ds"
proof (induction ds rule: digits_us.induct)
  case (3 c d r)
  then have "d \<noteq> CHR ''_''" by (auto simp: is_digit_def)
  with 3 show ?case by simp
qed simp_all

lemma takeWhile_all_digits:
  "list_all is_digit ds \<Longrightarrow> takeWhile (\<lambda>c. is_digit c \<or> c = CHR ''_'') ds = ds"
  by (simp add: list_all_iff)

lemma dropWhile_all_digits:
  "list_all is_digit ds \<Longrightarrow> dropWhile (\<lambda>c. is_digit c \<or> c = CHR ''_'') ds = []"
  by (simp add: list_all_iff)

lemma filter_all_digits: "list_all is_digit ds \<Longrightarrow> filter is_digit ds = ds"
  by (simp add: list_all_iff)

lemma py_int_digits:
  assumes "list_all is_digit ds" and "ds \<noteq> []" and "length ds \<le> int_max_str_digits"
  shows "py_int ds = Some (int (dec_val ds))"
proof -
  from assms obtain c r where ds: "ds = c # r" and c: "is_digit c"
    by (cases ds) auto
  from c have "dropWhile is_space ds = ds" "take 1 ds \<noteq> ''-''" "take 1 ds \<noteq> ''+''"
    by (simp_all add: ds digit_not_space digit_not_sign)
  with assms show ?thesis
    by (simp add: py_int_def Let_def takeWhile_all_digits dropWhile_all_digits
        filter_all_digits digits_us_all_digits del: digits_us.simps)
qed

lemma py_int_minus_digits:
  assumes "list_all is_digit ds" and "ds \<noteq> []" and "length ds \<le> int_max_str_digits"
  shows "py_int (CHR ''-'' # ds) = Some (- int (dec_val ds))"
proof -
  have "\<not> is_space (CHR ''-'')" by (simp add: is_space_def)
  then have "dropWhile is_space (CHR ''-'' # ds) = CHR ''-'' # ds" by simp
  with assms show ?thesis
    by (simp add: py_int_def Let_def takeWhile_all_digits dropWhile_all_digits
        filter_all_digits digits_us_all_digits del: digits_us.simps)
qed

lemma py_index_first:
  assumes "c \<notin> set body"
  shows "py_index (p @ body @ c # rest) c (length p) = Some (length p + length body)"
proof -
  from assms have "takeWhile (\<lambda>x. x \<noteq> c) (body @ c # rest) = body"
    by (auto simp: takeWhile_tail)
  then show ?thesis by (simp add: py_index_def)
qed

lemma decode_int_item:
  assumes "CHR ''e'' \<notin> set body"
  shows "decode_int (CHR ''i'' # body @ CHR ''e'' # rest) 0 =
     (case py_int body of
        None \<Rightarrow> Inl ValueError
      | Some n \<Rightarrow> Inr (BInt n, length body + 2, None))"
proof -
  have "CHR ''e'' \<notin> set (CHR ''i'' # body)" using assms by simp
  from py_index_first [OF this, of "[]" rest]
  have "py_index (CHR ''i'' # body @ CHR ''e'' # rest) (CHR ''e'') 0 = Some (Suc (length body))"
    by simp
  moreover have "py_slice (CHR ''i'' # body @ CHR ''e'' # rest) (0 + 1) (Suc (length body)) = body"
    by (simp add: py_slice_def)
  ultimately show ?thesis by (simp add: decode_int_def split: option.splits)
qed

text \<open>
  C6 (as amended). For an integer item \<open>i<body>e\<close> the decoder returns \<open>int(body)\<close>
  whenever \<open>int\<close> accepts the body and raises the built-in \<open>ValueError\<close> (not
  \<open>BencodeError\<close>) whenever \<open>int\<close> rejects it. \<open>int\<close> accepts every non-empty sequence
  of at most 4300 digits, with an optional leading \<open>-\<close>, whether or not it has leading
  zeros.
\<close>

theorem bdecode_int_item:
  "(CHR ''e'' \<notin> set body \<longrightarrow>
      bdecode (CHR ''i'' # body @ CHR ''e'' # rest) 0 cap =
        (case py_int body of
           None \<Rightarrow> Inl ValueError
         | Some n \<Rightarrow> Inr (BInt n, length body + 2, None)))
   \<and> (list_all is_digit ds \<and> ds \<noteq> [] \<and> length ds \<le> int_max_str_digits \<longrightarrow>
        py_int ds = Some (int (dec_val ds))
        \<and> py_int (CHR ''-'' # ds) = Some (- int (dec_val ds)))"
proof (intro conjI impI)
  assume "CHR ''e'' \<notin> set body"
  then have "bdecode_fuel (Suc 0) (CHR ''i'' # body @ CHR ''e'' # rest) 0 cap =
      Some (case py_int body of
        None \<Rightarrow> Inl ValueError
      | Some n \<Rightarrow> Inr (BInt n, length body + 2, None))"
    by (simp add: py_slice_def decode_int_item)
  then show "bdecode (CHR ''i'' # body @ CHR ''e'' # rest) 0 cap =
        (case py_int body of
           None \<Rightarrow> Inl ValueError
         | Some n \<Rightarrow> Inr (BInt n, length body + 2, None))"
    by (rule bdecode_eqI)
next
  assume "list_all is_digit ds \<and> ds \<noteq> [] \<and> length ds \<le> int_max_str_digits"
  then show "py_int ds = Some (int (dec_val ds))"
    and "py_int (CHR ''-'' # ds) = Some (- int (dec_val ds))"
    by (simp_all add: py_int_digits py_int_minus_digits)
qed

theorem bdecode_int_item_witness:
  "CHR ''e'' \<notin> set ''007''
   \<and> bdecode ''i007e'' 0 False = Inr (BInt 7, 5, None)
   \<and> bdecode ''i-12e'' 0 False = Inr (BInt (- 12), 5, None)
   \<and> bdecode ''i1x2e'' 0 False = Inl ValueError
   \<and> list_all is_digit ''007'' \<and> ''007'' \<noteq> [] \<and> length ''007'' \<le> int_max_str_digits
   \<and> py_int ''007'' = Some 7 \<and> py_int ''-007'' = Some (- 7)"
proof -
  have a: "py_int ''007'' = Some 7" "py_int ''-12'' = Some (- 12)" "py_int ''1x2'' = None"
    "py_int ''-007'' = Some (- 7)"
    by code_simp+
  show ?thesis
    using bdecode_int_item [of "''007''" "[]" False "''007''"]
      bdecode_int_item [of "''-12''" "[]" False "''007''"]
      bdecode_int_item [of "''1x2''" "[]" False "''007''"]
    by (simp add: a is_digit_def int_max_str_digits_def)
qed

theorem leading_zeros_counterexample: "bdecode ''i007e'' 0 False = Inr (BInt 7, 5, None)"
  by code_simp

subsection \<open>Byte-string items\<close>

lemma digit_not_letter:
  "is_digit c \<Longrightarrow> c \<noteq> CHR ''i'' \<and> c \<noteq> CHR ''l'' \<and> c \<noteq> CHR ''d''"
  by (auto simp: is_digit_def)

lemma bdecode_fuel_digit:
  assumes "i < length data" and "is_digit (data ! i)"
  shows "bdecode_fuel (Suc n) data i cap = Some (decode_str data i)"
  using assms by (simp add: py_slice_one in_0_9_one digit_not_letter)

lemma bdecode_fuel_past_end:
  "length data \<le> e \<Longrightarrow> bdecode_fuel (Suc n) data e cap = Some (Inl BencodeError)"
  by simp

lemma list_loop_past_end:
  "length data \<le> e \<Longrightarrow> list_loop (Suc (Suc n)) data e cap lst sl = Some (Inl BencodeError)"
  by (simp add: py_slice_one_out and_then_def)

lemma dict_loop_past_end:
  "length data \<le> e \<Longrightarrow> dict_loop (Suc (Suc n)) data e cap d sl = Some (Inl BencodeError)"
  by (simp add: py_slice_one_out and_then_def)

lemma bdecode_fuel_BStr_digit:
  assumes "bdecode_fuel n data i cap = Some (Inr (BStr b, e, s))"
  shows "i < length data \<and> is_digit (data ! i)"
proof (cases n)
  case 0
  with assms show ?thesis by simp
next
  case (Suc m)
  from bdecode_fuel_Suc_Inr [OF assms [unfolded Suc]] show ?thesis
    by (auto dest: decode_int_result list_loop_progress dict_loop_progress)
qed

lemma decode_str_truncated:
  assumes "py_index data (CHR '':'') i = Some j"
    and "py_int (py_slice data i j) = Some (int len)"
    and "length data < j + 1 + len"
  shows "decode_str data i = Inr (BStr (drop (j + 1) data), j + 1 + len, None)"
proof -
  have "nat (int (j + 1) + int len) = j + 1 + len" by simp
  moreover from assms(3) have "py_slice data (j + 1) (j + 1 + len) = drop (j + 1) data"
    by (simp add: py_slice_def)
  ultimately show ?thesis using assms(1,2) by (simp add: decode_str_def)
qed

text \<open>
  C3 (as amended). For a byte-string item whose declared length runs past the end of the
  buffer, the decoder called on the item raises nothing: it returns the bytes that are
  there, fewer than declared, and a next offset beyond the buffer. The truncation is
  reported by the caller's next read: a list or dictionary loop that meets the item as
  an element, a key or a value raises \<open>BencodeError\<close> (unexpected end of data), and
  \<open>decode_torrent_and_infohash\<close> raises \<open>BencodeError\<close> on a buffer that starts with it.
\<close>

theorem truncated_string:
  assumes "i < length data" and "is_digit (data ! i)"
    and "py_index data (CHR '':'') i = Some j"
    and "py_int (py_slice data i j) = Some (int len)"
    and "length data < j + 1 + len"
  shows "bdecode data i cap = Inr (BStr (drop (j + 1) data), j + 1 + len, None)
    \<and> length (drop (j + 1) data) < len
    \<and> list_loop (n + 3) data i cap lst sl = Some (Inl BencodeError)
    \<and> dict_loop (n + 3) data i cap d sl = Some (Inl BencodeError)
    \<and> (bdecode data k False = Inr (BStr kb, i, ks) \<longrightarrow>
         dict_loop (2 * length data + 2 + n) data k cap d sl = Some (Inl BencodeError))
    \<and> (i = 0 \<longrightarrow>
         decode_torrent_and_infohash sha1_hex sha256_hex data stem = Inl BencodeError)"
proof -
  let ?e = "j + 1 + len"
  let ?v = "BStr (drop (j + 1) data)"
  have str: "decode_str data i = Inr (?v, ?e, None)"
    using assms(3-5) by (rule decode_str_truncated)
  have fuel: "bdecode_fuel (Suc m) data i c = Some (Inr (?v, ?e, None))" for m c
    using assms(1,2) by (simp only: bdecode_fuel_digit str)
  have e: "length data \<le> ?e" using assms(5) by simp
  have ne: "py_slice data i (i + 1) \<noteq> ''e''"
    using assms(1,2) by (simp add: py_slice_one digit_not_sign)
  have 1: "bdecode data i cap = Inr (?v, ?e, None)"
    using fuel [of 0 cap] by (rule bdecode_eqI)
  have 2: "length (drop (j + 1) data) < len"
    using assms(5) py_index_SomeD(2) [OF assms(3)] by simp
  have "list_loop (Suc (Suc (Suc n))) data i cap lst sl = Some (Inl BencodeError)"
    using ne fuel [of "Suc n" cap] list_loop_past_end [OF e, of n cap]
    by (simp add: and_then_def del: bdecode_fuel.simps list_loop.simps
        add: list_loop.simps(2) [of "Suc (Suc n)"])
  then have 3: "list_loop (n + 3) data i cap lst sl = Some (Inl BencodeError)"
    by (simp add: numeral_3_eq_3)
  have "dict_loop (Suc (Suc (Suc n))) data i cap d sl = Some (Inl BencodeError)"
    using ne fuel [of "Suc n" False] bdecode_fuel_past_end [OF e, of "Suc n"]
    by (simp add: and_then_def del: bdecode_fuel.simps dict_loop.simps
        add: dict_loop.simps(2) [of "Suc (Suc n)"])
  then have 4: "dict_loop (n + 3) data i cap d sl = Some (Inl BencodeError)"
    by (simp add: numeral_3_eq_3)
  have 5: "dict_loop (2 * length data + 2 + n) data k cap d sl = Some (Inl BencodeError)"
    if key: "bdecode data k False = Inr (BStr kb, i, ks)"
  proof -
    from assms(1) obtain m where m: "2 * length data + n = Suc (Suc m)"
      by (cases "length data") auto
    have "bdecode_fuel (2 * length data + 1) data k False = Some (Inr (BStr kb, i, ks))"
      using bdecode_fuel_bdecode [of data k False] key by simp
    then have kf: "bdecode_fuel (Suc (Suc (Suc m))) data k False = Some (Inr (BStr kb, i, ks))"
      by (rule bdecode_fuel_mono) (use m in simp)
    from bdecode_fuel_BStr_digit [OF this]
    have "py_slice data k (k + 1) \<noteq> ''e''"
      by (simp add: py_slice_one digit_not_sign)
    then have "dict_loop (Suc (Suc (Suc (Suc m)))) data k cap d sl = Some (Inl BencodeError)"
      using kf fuel [of "Suc (Suc m)"] dict_loop_past_end [OF e, where n = "Suc m"]
      by (simp add: and_then_def del: bdecode_fuel.simps dict_loop.simps
          add: dict_loop.simps(2) [of "Suc (Suc (Suc m))"])
    moreover have "2 * length data + 2 + n = Suc (Suc (Suc (Suc m)))" using m by simp
    ultimately show ?thesis by simp
  qed
  have 6: "decode_torrent_and_infohash sha1_hex sha256_hex data stem = Inl BencodeError"
    if "i = 0"
  proof -
    have "bdecode data i True = Inr (?v, ?e, None)"
      using fuel [of 0 True] by (rule bdecode_eqI)
    with that show ?thesis by (simp add: decode_torrent_and_infohash_def)
  qed
  from 1 2 3 4 5 6 show ?thesis by blast
qed

theorem truncated_string_witness:
  "bdecode ''5:abcd'' 0 False = Inr (BStr ''abcd'', 7, None)
   \<and> length ''abcd'' < (5::nat)
   \<and> list_loop 3 ''5:abcd'' 0 False [] None = Some (Inl BencodeError)
   \<and> dict_loop 3 ''5:abcd'' 0 False [] None = Some (Inl BencodeError)
   \<and> decode_torrent_and_infohash (\<lambda>b. []) (\<lambda>b. []) ''5:abcd'' ''t'' = Inl BencodeError
   \<and> bdecode ''d1:k5:abcd'' 1 False = Inr (BStr ''k'', 4, None)
   \<and> bdecode ''d1:k5:abcd'' 4 False = Inr (BStr ''abcd'', 11, None)
   \<and> dict_loop 22 ''d1:k5:abcd'' 1 False [] None = Some (Inl BencodeError)"
proof -
  have a: "py_index ''5:abcd'' (CHR '':'') 0 = Some 1"
    "py_int (py_slice ''5:abcd'' 0 1) = Some (int 5)"
    "py_index ''d1:k5:abcd'' (CHR '':'') 4 = Some 5"
    "py_int (py_slice ''d1:k5:abcd'' 4 5) = Some (int 5)"
    "is_digit (CHR ''5'')"
    "bdecode ''d1:k5:abcd'' 1 False = Inr (BStr ''k'', 4, None)"
    by code_simp+
  from truncated_string [of 0 "''5:abcd''" 1 5 False 0 "[]" None "[]" 0 "[]" None
      "\<lambda>b. []" "\<lambda>b. []" "''t''"] a
  have "bdecode ''5:abcd'' 0 False = Inr (BStr ''abcd'', 7, None)
   \<and> length ''abcd'' < (5::nat)
   \<and> list_loop 3 ''5:abcd'' 0 False [] None = Some (Inl BencodeError)
   \<and> dict_loop 3 ''5:abcd'' 0 False [] None = Some (Inl BencodeError)
   \<and> decode_torrent_and_infohash (\<lambda>b. []) (\<lambda>b. []) ''5:abcd'' ''t'' = Inl BencodeError"
    by simp
  moreover
  from truncated_string [of 4 "''d1:k5:abcd''" 5 5 False 0 "[]" None "[]" 1 "''k''" None
      "\<lambda>b. []" "\<lambda>b. []" "''t''"] a
  have "bdecode ''d1:k5:abcd'' 4 False = Inr (BStr ''abcd'', 11, None)
    \<and> dict_loop 22 ''d1:k5:abcd'' 1 False [] None = Some (Inl BencodeError)"
    by simp
  ultimately show ?thesis using a(6) by simp
qed

theorem truncated_string_counterexample:
  "bdecode ''5:abcd'' 0 False = Inr (BStr ''abcd'', 7, None)"
  by code_simp

subsection \<open>The infohash\<close>

text \<open>
  C1. Whenever \<open>decode_torrent_and_infohash\<close> returns, the top-level value is a
  dictionary \<open>d\<close>, and the infohash is determined by the span \<open>sp\<close> that the decoder
  captured: absent when no span was captured (the file as a whole is never hashed);
  \<open>btmh:1220\<close> followed by the SHA-256 hex digest of the span when \<open>info\<close> is a
  dictionary whose \<open>meta version\<close> is the integer 2; \<open>btih:\<close> followed by the SHA-1 hex
  digest of the span in every other case.
\<close>

theorem infohash_classification:
  assumes "decode_torrent_and_infohash sha1_hex sha256_hex raw stem = Inr (d, ih, name)"
  shows "\<exists>idx sp. bdecode raw 0 True = Inr (BDict d, idx, sp)
    \<and> ih = (case sp of
               None \<Rightarrow> None
             | Some span \<Rightarrow>
                 if \<exists>info. dict_get d ''info'' = Some (BDict info)
                            \<and> dict_get info ''meta version'' = Some (BInt 2)
                 then Some (''btmh:'' @ ''1220'' @ sha256_hex span)
                 else Some (''btih:'' @ sha1_hex span))"
proof -
  from assms obtain val idx sp where dec: "bdecode raw 0 True = Inr (val, idx, sp)"
    by (auto simp: decode_torrent_and_infohash_def split: sum.splits)
  with assms have val: "val = BDict d"
    by (cases val) (auto simp: decode_torrent_and_infohash_def split: option.splits if_splits)
  have v2: "is_v2 (dict_get d ''info'') \<longleftrightarrow>
      (\<exists>info. dict_get d ''info'' = Some (BDict info)
          \<and> dict_get info ''meta version'' = Some (BInt 2))"
    by (auto simp: is_v2_def split: option.splits bval.splits)
  from assms dec val have "ih = (case sp of
               None \<Rightarrow> None
             | Some span \<Rightarrow>
                 if is_v2 (dict_get d ''info'')
                 then Some (''btmh:'' @ ''1220'' @ sha256_hex span)
                 else Some (''btih:'' @ sha1_hex span))"
    by (auto simp: decode_torrent_and_infohash_def split: option.splits if_splits)
  with dec val show ?thesis unfolding v2 by blast
qed

theorem infohash_classification_witness:
  "decode_torrent_and_infohash (\<lambda>b. ''sha1:'' @ b) (\<lambda>b. ''sha256:'' @ b)
      ''d4:infod12:meta versioni2e4:name1:aee'' ''t''
     = Inr ([(''info'', BDict [(''meta version'', BInt 2), (''name'', BStr ''a'')])],
            Some ''btmh:1220sha256:d12:meta versioni2e4:name1:ae'', ''a'')
   \<and> bdecode ''d4:infod12:meta versioni2e4:name1:aee'' 0 True
     = Inr (BDict [(''info'', BDict [(''meta version'', BInt 2), (''name'', BStr ''a'')])],
            37, Some ''d12:meta versioni2e4:name1:ae'')"
proof -
  have b: "bdecode ''d4:infod12:meta versioni2e4:name1:aee'' 0 True
     = Inr (BDict [(''info'', BDict [(''meta version'', BInt 2), (''name'', BStr ''a'')])],
            37, Some ''d12:meta versioni2e4:name1:ae'')"
    by code_simp
  have u: "utf8_decode Replace ''a'' = ''a''"
    by code_simp
  have a: "decode_torrent_and_infohash (\<lambda>b. ''sha1:'' @ b) (\<lambda>b. ''sha256:'' @ b)
      ''d4:infod12:meta versioni2e4:name1:aee'' ''t''
     = Inr ([(''info'', BDict [(''meta version'', BInt 2), (''name'', BStr ''a'')])],
            Some ''btmh:1220sha256:d12:meta versioni2e4:name1:ae'', ''a'')"
    by (simp add: decode_torrent_and_infohash_def b is_v2_def info_name_def name_or_def u)
  from infohash_classification [OF a] b show ?thesis
    using a by simp
qed

subsection \<open>The file list\<close>

lemma py_in_empty: "py_in [] b"
  by (cases b) simp_all

lemma walk_mono: "walk tree names = Inr result \<Longrightarrow> names \<subseteq> result"
proof (induction tree names arbitrary: result rule: walk.induct)
  case (1 names)
  then show ?case by simp
next
  case (2 k v rest names)
  show ?case
  proof (cases "contains_empty v")
    case (Inl e)
    with "2.prems" show ?thesis by simp
  next
    case (Inr hit)
    show ?thesis
    proof (cases hit)
      case True
      have hit: "hit = True" using True by simp
      from Inr True "2.prems" have "walk rest (insert (utf8_decode Ignore k) names) = Inr result"
        by simp
      from "2.IH"(1) [OF Inr hit this]
      have "insert (utf8_decode Ignore k) names \<subseteq> result" .
      then show ?thesis by simp
    next
      case False
      show ?thesis
      proof (cases v)
        case (BDict sub)
        with Inr False "2.prems" obtain names' where sub: "walk sub names = Inr names'"
          and rest: "walk rest names' = Inr result"
          by (auto split: sum.splits)
        have hit: "hit = False" using False by simp
        from "2.IH"(5) [OF Inr hit BDict sub] have "names \<subseteq> names'" .
        moreover from "2.IH"(6) [OF Inr hit BDict sub rest] have "names' \<subseteq> result" .
        ultimately show ?thesis by simp
      next
        case (BInt n)
        with Inr False "2.prems" have "walk rest names = Inr result" by simp
        from "2.IH"(2) [OF Inr _ BInt this] False show ?thesis by simp
      next
        case (BStr b)
        with Inr False "2.prems" have "walk rest names = Inr result" by simp
        from "2.IH"(3) [OF Inr _ BStr this] False show ?thesis by simp
      next
        case (BList xs)
        with Inr False "2.prems" have "walk rest names = Inr result" by simp
        from "2.IH"(4) [OF Inr _ BList this] False show ?thesis by simp
      qed
    qed
  qed
qed

lemma walk_bytes_entry:
  "walk tree names = Inr result \<Longrightarrow> (k, BStr b) \<in> set tree
     \<Longrightarrow> utf8_decode Ignore k \<in> result"
proof (induction tree arbitrary: names result)
  case Nil
  then show ?case by simp
next
  case (Cons kv tree)
  obtain k' v where kv: "kv = (k', v)" by (cases kv)
  show ?case
  proof (cases "(k, BStr b) = kv")
    case True
    with Cons.prems kv have "walk tree (insert (utf8_decode Ignore k) names) = Inr result"
      by (auto simp: contains_empty_def py_in_empty)
    from walk_mono [OF this] show ?thesis by simp
  next
    case False
    with Cons.prems have mem: "(k, BStr b) \<in> set tree" by auto
    from Cons.prems(1) obtain names' where "walk tree names' = Inr result"
      unfolding kv by (auto split: sum.splits bool.splits bval.splits)
    from Cons.IH [OF this mem] show ?thesis .
  qed
qed

text \<open>
  C10. In the walk over a v2 file tree, the test \<open>b"" in v\<close> succeeds whenever the value
  \<open>v\<close> of a key is a byte string, whatever its bytes; the walk then adds the decoded key to
  the set of names, and the key is in the set that the walk returns.
\<close>

theorem file_tree_bytes_value_is_leaf:
  "contains_empty (BStr b) = Inr True
   \<and> walk ((k, BStr b) # rest) names = walk rest (insert (utf8_decode Ignore k) names)
   \<and> (walk tree names = Inr result \<and> (k, BStr b) \<in> set tree
        \<longrightarrow> utf8_decode Ignore k \<in> result)"
  by (auto simp: contains_empty_def py_in_empty dest: walk_bytes_entry)

theorem file_tree_bytes_value_is_leaf_witness:
  "walk [(''sub'', BStr ''x'')] {} = Inr {''sub''}
   \<and> (''sub'', BStr ''x'') \<in> set [(''sub'', BStr ''x'')]
   \<and> utf8_decode Ignore ''sub'' \<in> {''sub''}
   \<and> torrent_file_list [(''info'', BDict [(''file tree'', BDict [(''sub'', BStr ''x'')])])]
       = Inr {''sub''}"
proof -
  have u: "utf8_decode Ignore ''sub'' = ''sub''" by code_simp
  have w: "walk [(''sub'', BStr ''x'')] {} = Inr {''sub''}"
    by (simp add: contains_empty_def u)
  have t: "torrent_file_list [(''info'', BDict [(''file tree'', BDict [(''sub'', BStr ''x'')])])]
       = Inr {''sub''}"
    by (simp add: torrent_file_list_def multi_file_names_def single_file_names_def
        contains_empty_def u)
  from file_tree_bytes_value_is_leaf [of "''x''" "''sub''" "[]" "{}" "[(''sub'', BStr ''x'')]"
      "{''sub''}"] w t
  show ?thesis by simp
qed

subsection \<open>A file tree with an integer value\<close>

text \<open>
  C5 (the failing input). The torrent \<open>d4:infod9:file treed1:ai1eeee\<close> decodes, and its
  \<open>info\<close> dictionary holds the file tree \<open>{"a": 1}\<close>. On the decoded dictionary
  \<open>torrent_file_list\<close> raises \<open>TypeError\<close>, and the loop of \<open>load_torrents\<close> drops the
  whole record.
\<close>

theorem file_tree_int_value_raises:
  "decode_torrent_and_infohash (\<lambda>b. []) (\<lambda>b. []) ''d4:infod9:file treed1:ai1eeee'' ''t''
     = Inr ([(''info'', BDict [(''file tree'', BDict [(''a'', BInt 1)])])], Some ''btih:'', ''t'')
   \<and> torrent_file_list [(''info'', BDict [(''file tree'', BDict [(''a'', BInt 1)])])]
     = Inl TypeError
   \<and> load_torrent (\<lambda>b. []) (\<lambda>b. []) ascii_lower ''p'' ''d4:infod9:file treed1:ai1eeee'' ''t''
     = None"
proof -
  have b: "bdecode ''d4:infod9:file treed1:ai1eeee'' 0 True
     = Inr (BDict [(''info'', BDict [(''file tree'', BDict [(''a'', BInt 1)])])], 29,
            Some ''d9:file treed1:ai1eee'')"
    by code_simp
  have a: "decode_torrent_and_infohash (\<lambda>b. []) (\<lambda>b. []) ''d4:infod9:file treed1:ai1eeee'' ''t''
     = Inr ([(''info'', BDict [(''file tree'', BDict [(''a'', BInt 1)])])], Some ''btih:'', ''t'')"
    by (simp add: decode_torrent_and_infohash_def b is_v2_def info_name_def name_or_def)
  have t: "torrent_file_list [(''info'', BDict [(''file tree'', BDict [(''a'', BInt 1)])])]
     = Inl TypeError"
    by (simp add: torrent_file_list_def contains_empty_def)
  show ?thesis by (simp add: load_torrent_def a t)
qed

subsection \<open>The matcher\<close>

lemma first_match_None: "first_match p ts = None \<longleftrightarrow> (\<forall>t \<in> set ts. \<not> p t)"
  by (induction ts) auto

lemma first_match_Some:
  "first_match p ts = Some t \<longleftrightarrow>
     (\<exists>i < length ts. ts ! i = t \<and> p t \<and> (\<forall>j < i. \<not> p (ts ! j)))"
proof (induction ts)
  case Nil
  show ?case by simp
next
  case (Cons a ts)
  show ?case
  proof (cases "p a")
    case True
    have "(\<exists>i < length (a # ts). (a # ts) ! i = t \<and> p t \<and> (\<forall>j < i. \<not> p ((a # ts) ! j)))
        \<longleftrightarrow> a = t"
    proof
      assume "\<exists>i < length (a # ts). (a # ts) ! i = t \<and> p t \<and> (\<forall>j < i. \<not> p ((a # ts) ! j))"
      then obtain i where i: "(a # ts) ! i = t" "\<forall>j < i. \<not> p ((a # ts) ! j)" by blast
      with True have "i = 0" by (cases i) auto
      with i show "a = t" by simp
    next
      assume "a = t"
      with True show "\<exists>i < length (a # ts). (a # ts) ! i = t \<and> p t
          \<and> (\<forall>j < i. \<not> p ((a # ts) ! j))"
        by (intro exI [of _ 0]) simp
    qed
    with True show ?thesis by simp
  next
    case False
    have "(\<exists>i < length (a # ts). (a # ts) ! i = t \<and> p t \<and> (\<forall>j < i. \<not> p ((a # ts) ! j)))
        \<longleftrightarrow> (\<exists>i < length ts. ts ! i = t \<and> p t \<and> (\<forall>j < i. \<not> p (ts ! j)))"
    proof
      assume "\<exists>i < length (a # ts). (a # ts) ! i = t \<and> p t \<and> (\<forall>j < i. \<not> p ((a # ts) ! j))"
      then obtain i where i: "i < length (a # ts)" "(a # ts) ! i = t" "p t"
        "\<forall>j < i. \<not> p ((a # ts) ! j)" by blast
      with False obtain i' where i': "i = Suc i'" by (cases i) auto
      with i have "i' < length ts" "ts ! i' = t" by simp_all
      moreover have "\<forall>j < i'. \<not> p (ts ! j)"
      proof (intro allI impI)
        fix j assume "j < i'"
        then have "Suc j < i" using i' by simp
        with i(4) have "\<not> p ((a # ts) ! Suc j)" by blast
        then show "\<not> p (ts ! j)" by simp
      qed
      ultimately show "\<exists>i < length ts. ts ! i = t \<and> p t \<and> (\<forall>j < i. \<not> p (ts ! j))"
        using i(3) by blast
    next
      assume "\<exists>i < length ts. ts ! i = t \<and> p t \<and> (\<forall>j < i. \<not> p (ts ! j))"
      then obtain i where i: "i < length ts" "ts ! i = t" "p t" "\<forall>j < i. \<not> p (ts ! j)"
        by blast
      have "\<forall>j < Suc i. \<not> p ((a # ts) ! j)"
      proof (intro allI impI)
        fix j assume "j < Suc i"
        with False i(4) show "\<not> p ((a # ts) ! j)" by (cases j) auto
      qed
      with i show "\<exists>i < length (a # ts). (a # ts) ! i = t \<and> p t
          \<and> (\<forall>j < i. \<not> p ((a # ts) ! j))"
        by (intro exI [of _ "Suc i"]) simp
    qed
    with False Cons.IH show ?thesis by simp
  qed
qed

text \<open>
  C7. The matcher returns the first record, in the order of the collection, that
  satisfies the highest tier that any record satisfies: tier 1 (the lower-cased display
  name is non-empty and equals the lower-cased directory name), then tier 2 (the display
  name is non-empty and one of the two lower-cased names is a substring of the other),
  then tier 3 (the directory name is a substring of a lower-cased file name of the
  record); it returns nothing exactly when no record satisfies any tier.
\<close>

theorem matcher_tier_precedence:
  "(case match_movie_to_torrent lower dir ts of
      None \<Rightarrow>
        \<forall>t \<in> set ts. \<not> tier1 lower (lower dir) t \<and> \<not> tier2 lower (lower dir) t
                       \<and> \<not> tier3 lower (lower dir) t
    | Some t \<Rightarrow>
        \<exists>i < length ts. ts ! i = t \<and>
          (tier1 lower (lower dir) t \<and> (\<forall>j < i. \<not> tier1 lower (lower dir) (ts ! j))
           \<or> (\<forall>u \<in> set ts. \<not> tier1 lower (lower dir) u)
              \<and> tier2 lower (lower dir) t \<and> (\<forall>j < i. \<not> tier2 lower (lower dir) (ts ! j))
           \<or> (\<forall>u \<in> set ts. \<not> tier1 lower (lower dir) u)
              \<and> (\<forall>u \<in> set ts. \<not> tier2 lower (lower dir) u)
              \<and> tier3 lower (lower dir) t \<and> (\<forall>j < i. \<not> tier3 lower (lower dir) (ts ! j))))"
proof (cases "first_match (tier1 lower (lower dir)) ts")
  case (Some t)
  then have "match_movie_to_torrent lower dir ts = Some t"
    by (simp add: match_movie_to_torrent_def)
  moreover from Some have "\<exists>i < length ts. ts ! i = t \<and> tier1 lower (lower dir) t
      \<and> (\<forall>j < i. \<not> tier1 lower (lower dir) (ts ! j))"
    by (simp add: first_match_Some)
  ultimately show ?thesis by auto
next
  case None
  then have n1: "\<forall>u \<in> set ts. \<not> tier1 lower (lower dir) u"
    by (simp add: first_match_None)
  show ?thesis
  proof (cases "first_match (tier2 lower (lower dir)) ts")
    case (Some t)
    with None have "match_movie_to_torrent lower dir ts = Some t"
      by (simp add: match_movie_to_torrent_def)
    moreover from Some have "\<exists>i < length ts. ts ! i = t \<and> tier2 lower (lower dir) t
        \<and> (\<forall>j < i. \<not> tier2 lower (lower dir) (ts ! j))"
      by (simp add: first_match_Some)
    ultimately show ?thesis using n1 by auto
  next
    case n2': None
    then have n2: "\<forall>u \<in> set ts. \<not> tier2 lower (lower dir) u"
      by (simp add: first_match_None)
    show ?thesis
    proof (cases "first_match (tier3 lower (lower dir)) ts")
      case (Some t)
      with None n2' have "match_movie_to_torrent lower dir ts = Some t"
        by (simp add: match_movie_to_torrent_def)
      moreover from Some have "\<exists>i < length ts. ts ! i = t \<and> tier3 lower (lower dir) t
          \<and> (\<forall>j < i. \<not> tier3 lower (lower dir) (ts ! j))"
        by (simp add: first_match_Some)
      ultimately show ?thesis using n1 n2 by auto
    next
      case n3': None
      then have "\<forall>u \<in> set ts. \<not> tier3 lower (lower dir) u"
        by (simp add: first_match_None)
      moreover from None n2' n3' have "match_movie_to_torrent lower dir ts = None"
        by (simp add: match_movie_to_torrent_def)
      ultimately show ?thesis using n1 n2 by simp
    qed
  qed
qed

theorem matcher_tier_precedence_witness:
  "match_movie_to_torrent ascii_lower ''Movie Name''
     [\<lparr>path = ''1'', display_name = Some ''Movie Name Extended'', infohash = None,
        magnet = None, files = {}\<rparr>,
      \<lparr>path = ''2'', display_name = Some ''Movie Name'', infohash = None,
        magnet = None, files = {}\<rparr>]
   = Some \<lparr>path = ''2'', display_name = Some ''Movie Name'', infohash = None,
        magnet = None, files = {}\<rparr>
   \<and> tier2 ascii_lower ''movie name''
        \<lparr>path = ''1'', display_name = Some ''Movie Name Extended'', infohash = None,
          magnet = None, files = {}\<rparr>
   \<and> \<not> tier1 ascii_lower ''movie name''
        \<lparr>path = ''1'', display_name = Some ''Movie Name Extended'', infohash = None,
          magnet = None, files = {}\<rparr>
   \<and> tier1 ascii_lower ''movie name''
        \<lparr>path = ''2'', display_name = Some ''Movie Name'', infohash = None,
          magnet = None, files = {}\<rparr>"
proof -
  let ?r1 = "\<lparr>path = ''1'', display_name = Some ''Movie Name Extended'', infohash = None,
        magnet = None, files = {}\<rparr>"
  let ?r2 = "\<lparr>path = ''2'', display_name = Some ''Movie Name'', infohash = None,
        magnet = None, files = {}\<rparr>"
  have l: "ascii_lower ''Movie Name'' = ''movie name''"
    "ascii_lower ''Movie Name Extended'' = ''movie name extended''"
    by code_simp+
  have t: "\<not> tier1 ascii_lower ''movie name'' ?r1" "tier1 ascii_lower ''movie name'' ?r2"
    "tier2 ascii_lower ''movie name'' ?r1"
    by (simp_all add: tier1_def tier2_def torrent_name_def l)
  from matcher_tier_precedence [where lower = ascii_lower and dir = "''Movie Name''"
      and ts = "[?r1, ?r2]"]
  have "match_movie_to_torrent ascii_lower ''Movie Name'' [?r1, ?r2] = Some ?r2"
    by (auto simp: l t less_Suc_eq split: option.splits)
  with t show ?thesis by simp
qed

subsection \<open>The magnet link\<close>

lemma first_occurrences_distinct: "distinct (first_occurrences xs)"
  by (simp add: first_occurrences_def)

lemma first_occurrences_set: "set (first_occurrences xs) = set xs"
  by (simp add: first_occurrences_def)

lemma remdups_snoc:
  "remdups (xs @ [x]) = filter (\<lambda>y. y \<noteq> x) (remdups xs) @ [x]"
  by (induction xs) auto

lemma remdups_filter_commute: "remdups (filter p xs) = filter p (remdups xs)"
  by (induction xs) auto

lemma first_occurrences_Cons:
  "first_occurrences (x # xs) = x # first_occurrences (filter (\<lambda>y. y \<noteq> x) xs)"
  by (simp add: first_occurrences_def remdups_snoc rev_filter remdups_filter_commute)

lemma first_occurrences_Nil: "first_occurrences [] = []"
  by (simp add: first_occurrences_def)

text \<open>The loop appends, for the trackers not seen so far, the first occurrence of each
  non-empty decoded text.\<close>

lemma dedupe_loop_spec:
  "dedupe_loop ts seen params =
     params @ map (\<lambda>s. ''tr='' @ quote ''/'' s)
       (first_occurrences
          (filter (\<lambda>s. s \<noteq> [] \<and> s \<notin> seen) (map (utf8_decode Ignore) ts)))"
proof (induction ts arbitrary: seen params)
  case Nil
  show ?case by (simp add: first_occurrences_Nil)
next
  case (Cons t ts)
  let ?s = "utf8_decode Ignore t"
  show ?case
  proof (cases "?s \<noteq> [] \<and> ?s \<notin> seen")
    case True
    have "filter (\<lambda>y. y \<noteq> ?s)
            (filter (\<lambda>s. s \<noteq> [] \<and> s \<notin> seen) (map (utf8_decode Ignore) ts))
        = filter (\<lambda>s. s \<noteq> [] \<and> s \<notin> insert ?s seen) (map (utf8_decode Ignore) ts)"
      by (auto intro: filter_cong)
    with True show ?thesis
      by (simp add: Cons.IH first_occurrences_Cons)
  next
    case False
    then show ?thesis by (auto simp: Cons.IH)
  qed
qed

lemma magnet_params_spec:
  "magnet_params d xt name =
     [''xt='' @ quote '':'' xt]
     @ (if name = [] then [] else [''dn='' @ quote ''/'' name])
     @ (case dict_get d ''announce'' of
          Some (BStr a) \<Rightarrow> [''tr='' @ quote ''/'' (utf8_decode Ignore a)]
        | _ \<Rightarrow> [])
     @ map (\<lambda>s. ''tr='' @ quote ''/'' s)
         (first_occurrences (filter (\<lambda>s. s \<noteq> [])
            (map (utf8_decode Ignore)
               (case dict_get d ''announce-list'' of
                  Some (BList l) \<Rightarrow> flatten_trackers l
                | _ \<Rightarrow> []))))"
  by (simp add: magnet_params_def Let_def dedupe_loop_spec first_occurrences_Nil
      split: option.splits bval.splits)

text \<open>
  C4 (as amended). A magnet link is built only for an infohash tagged \<open>btih:\<close> or
  \<open>btmh:\<close>. Its parameters, joined by \<open>&\<close>, are in this order: \<open>xt\<close>; \<open>dn\<close>, only if the
  display name is non-empty; one \<open>tr\<close> for \<open>announce\<close> if it is a byte string; then one
  \<open>tr\<close> for each flattened leaf of \<open>announce-list\<close> whose decoded text is non-empty, where
  among these leaves a text that occurs more than once is emitted once, at its first
  occurrence. Tracker values are percent-encoded with \<open>/\<close> left as it is.
\<close>

theorem magnet_parameter_order:
  assumes "magnet_from_info d ih name = Some m"
  shows "\<exists>tag. (tag = ''btih:'' \<or> tag = ''btmh:'') \<and> startswith ih tag
    \<and> m = ''magnet:?'' @ py_join ''&''
          ([''xt='' @ quote '':'' (''urn:'' @ tag @ after_colon ih)]
           @ (if name = [] then [] else [''dn='' @ quote ''/'' name])
           @ (case dict_get d ''announce'' of
                Some (BStr a) \<Rightarrow> [''tr='' @ quote ''/'' (utf8_decode Ignore a)]
              | _ \<Rightarrow> [])
           @ map (\<lambda>s. ''tr='' @ quote ''/'' s)
               (first_occurrences (filter (\<lambda>s. s \<noteq> [])
                  (map (utf8_decode Ignore)
                     (case dict_get d ''announce-list'' of
                        Some (BList l) \<Rightarrow> flatten_trackers l
                      | _ \<Rightarrow> [])))))
    \<and> distinct (first_occurrences (filter (\<lambda>s. s \<noteq> [])
                  (map (utf8_decode Ignore)
                     (case dict_get d ''announce-list'' of
                        Some (BList l) \<Rightarrow> flatten_trackers l
                      | _ \<Rightarrow> []))))"
proof (cases "startswith ih ''btih:''")
  case True
  with assms have "m = ''magnet:?'' @ py_join ''&''
      (magnet_params d (''urn:'' @ ''btih:'' @ after_colon ih) name)"
    by (auto simp: magnet_from_info_def split: if_splits)
  with True show ?thesis
    unfolding magnet_params_spec by (intro exI [of _ "''btih:''"]) (simp add: first_occurrences_distinct)
next
  case False
  with assms have sw: "startswith ih ''btmh:''"
    and "m = ''magnet:?'' @ py_join ''&''
      (magnet_params d (''urn:'' @ ''btmh:'' @ after_colon ih) name)"
    by (auto simp: magnet_from_info_def split: if_splits)
  then show ?thesis
    unfolding magnet_params_spec by (intro exI [of _ "''btmh:''"]) (simp add: first_occurrences_distinct)
qed

theorem magnet_parameter_order_witness:
  "magnet_from_info
     [(''announce-list'',
       BList [BList [BStr ''http://a''], BList [BStr ''http://b''], BList [BStr ''http://a'']])]
     ''btih:abcd'' ''Foo Bar''
   = Some ''magnet:?xt=urn:btih:abcd&dn=Foo%20Bar&tr=http%3A//a&tr=http%3A//b''"
proof -
  let ?d = "[(''announce-list'',
       BList [BList [BStr ''http://a''], BList [BStr ''http://b''], BList [BStr ''http://a'']])]"
  have u: "utf8_decode Ignore ''http://a'' = ''http://a''"
    "utf8_decode Ignore ''http://b'' = ''http://b''"
    by code_simp+
  have q: "quote ''/'' ''http://a'' = ''http%3A//a''" "quote ''/'' ''http://b'' = ''http%3A//b''"
    "quote ''/'' ''Foo Bar'' = ''Foo%20Bar''" "quote '':'' ''urn:btih:abcd'' = ''urn:btih:abcd''"
    by code_simp+
  have m: "magnet_from_info ?d ''btih:abcd'' ''Foo Bar''
     = Some ''magnet:?xt=urn:btih:abcd&dn=Foo%20Bar&tr=http%3A//a&tr=http%3A//b''"
    by (simp add: magnet_from_info_def startswith_def after_colon_def magnet_params_def
        flatten_trackers_def item_trackers_def List.map_filter_simps u q)
  from magnet_parameter_order [OF m] show ?thesis using m by simp
qed

theorem magnet_tracker_dedup_counterexample:
  "magnet_from_info
     [(''announce'', BStr ''http://a''),
      (''announce-list'', BList [BList [BStr ''http://a''], BList [BStr ''http://b'']])]
     ''btih:abcd'' ''Foo Bar''
   = Some ''magnet:?xt=urn:btih:abcd&dn=Foo%20Bar&tr=http%3A//a&tr=http%3A//a&tr=http%3A//b''"
proof -
  have u: "utf8_decode Ignore ''http://a'' = ''http://a''"
    "utf8_decode Ignore ''http://b'' = ''http://b''"
    by code_simp+
  have q: "quote ''/'' ''http://a'' = ''http%3A//a''" "quote ''/'' ''http://b'' = ''http%3A//b''"
    "quote ''/'' ''Foo Bar'' = ''Foo%20Bar''" "quote '':'' ''urn:btih:abcd'' = ''urn:btih:abcd''"
    by code_simp+
  show ?thesis
    by (simp add: magnet_from_info_def startswith_def after_colon_def magnet_params_def
        flatten_trackers_def item_trackers_def List.map_filter_simps u q)
qed

subsection \<open>The captured span\<close>

lemma py_or_None [simp]: "py_or None b = b"
  by (simp add: py_or_def)

lemma py_or_Some_nonempty: "s \<noteq> [] \<Longrightarrow> py_or (Some s) b = Some s"
  by (simp add: py_or_def)

lemma map_of_dict_set:
  "map_of (dict_set d k v) k' = (if k' = k then Some v else map_of d k')"
  by (induction d k v rule: dict_set.induct) auto

lemma py_slice_nonempty: "s < t \<Longrightarrow> s < length data \<Longrightarrow> py_slice data s t \<noteq> []"
  by (simp add: py_slice_def)

lemma py_slice_length: "t \<le> length data \<Longrightarrow> length (py_slice data s t) = t - s"
  by (simp add: py_slice_def)

lemma no_capture:
  "(\<forall>data i v e s. bdecode_fuel n data i False = Some (Inr (v, e, s)) \<longrightarrow> s = None)
   \<and> (\<forall>data i lst v e s. list_loop n data i False lst None = Some (Inr (v, e, s))
         \<longrightarrow> s = None)
   \<and> (\<forall>data i d v e s. dict_loop n data i False d None = Some (Inr (v, e, s))
         \<longrightarrow> s = None)"
proof (induction n)
  case 0
  show ?case by simp
next
  case (Suc n)
  note IH1 = Suc.IH [THEN conjunct1, rule_format]
  note IH2 = Suc.IH [THEN conjunct2, THEN conjunct1, rule_format]
  note IH3 = Suc.IH [THEN conjunct2, THEN conjunct2, rule_format]
  have 1: "s = None"
    if "bdecode_fuel (Suc n) data i False = Some (Inr (v, e, s))" for data i v e s
    using bdecode_fuel_Suc_Inr [OF that]
    by (auto dest: decode_int_result decode_str_result IH2 IH3)
  have 2: "s = None"
    if "list_loop (Suc n) data i False lst None = Some (Inr (v, e, s))" for data i lst v e s
    using list_loop_Suc_Inr [OF that]
  proof (elim disjE exE conjE)
    fix w i' sub
    assume a: "bdecode_fuel n data i False = Some (Inr (w, i', sub))"
      and b: "list_loop n data i' False (lst @ [w]) (py_or None sub) = Some (Inr (v, e, s))"
    from IH1 [OF a] b show ?thesis by (auto dest: IH2)
  qed simp
  have 3: "s = None"
    if "dict_loop (Suc n) data i False d None = Some (Inr (v, e, s))" for data i d v e s
    using dict_loop_Suc_Inr [OF that]
  proof (elim disjE exE conjE)
    fix k i1 ks w i2 sub
    assume b: "bdecode_fuel n data i1 (False \<and> k \<noteq> ''info'') = Some (Inr (w, i2, sub))"
      and c: "dict_loop n data i2 False (dict_set d k w)
               (if False \<and> k = ''info'' then Some (py_slice data i1 i2) else py_or None sub)
             = Some (Inr (v, e, s))"
    from b have "sub = None" by (auto dest: IH1)
    with c show ?thesis by (auto dest: IH3)
  qed simp
  show ?case
    apply (rule conjI)
     apply (intro allI impI)
     apply (erule 1)
    apply (rule conjI)
     apply (intro allI impI)
     apply (erule 2)
    apply (intro allI impI)
    apply (erule 3)
    done
qed

lemma bdecode_fuel_no_capture:
  "bdecode_fuel n data i False = Some (Inr (v, e, s)) \<Longrightarrow> s = None"
  by (rule no_capture [of n, THEN conjunct1, rule_format])

lemma dict_loop_info_span:
  assumes "dict_loop n data i True d0 sl0 = Some (Inr (BDict d, e, sp))"
    and "\<And>v. dict_get d0 ''info'' = Some v \<Longrightarrow> is_info_span data v sl0"
    and "dict_get d ''info'' = Some v"
  shows "is_info_span data v sp"
  using assms
proof (induction n arbitrary: i d0 sl0)
  case 0
  then show ?case by simp
next
  case (Suc n)
  from dict_loop_Suc_Inr [OF Suc.prems(1)] show ?case
  proof (elim disjE exE conjE)
    assume "BDict d = BDict d0" "sp = sl0"
    with Suc.prems(2,3) show ?thesis by simp
  next
    fix k i1 ks w i2 sub
    assume a: "bdecode_fuel n data i False = Some (Inr (BStr k, i1, ks))"
      and b: "bdecode_fuel n data i1 (True \<and> k \<noteq> ''info'') = Some (Inr (w, i2, sub))"
      and c: "dict_loop n data i2 True (dict_set d0 k w)
               (if True \<and> k = ''info'' then Some (py_slice data i1 i2) else py_or sl0 sub)
             = Some (Inr (BDict d, e, sp))"
    let ?sl = "if True \<and> k = ''info'' then Some (py_slice data i1 i2) else py_or sl0 sub"
    have inv: "is_info_span data u ?sl" if u: "dict_get (dict_set d0 k w) ''info'' = Some u" for u
    proof (cases "k = ''info''")
      case True
      with u have uw: "u = w" by (simp add: map_of_dict_set)
      from a have "bdecode data i False = Inr (BStr ''info'', i1, None)"
        using bdecode_fuel_no_capture [OF a] True by (auto intro: bdecode_eqI)
      moreover from b True have "bdecode data i1 False = Inr (w, i2, None)"
        using bdecode_fuel_no_capture [of n data i1 w i2 sub] by (auto intro: bdecode_eqI)
      moreover from b have "i1 < i2" by (auto dest: bdecode_fuel_progress)
      moreover from c have "i2 \<le> length data" by (auto dest: dict_loop_progress)
      ultimately show ?thesis using True uw unfolding is_info_span_def by auto
    next
      case False
      with u have "dict_get d0 ''info'' = Some u" by (simp add: map_of_dict_set)
      then have sp0: "is_info_span data u sl0" by (rule Suc.prems(2))
      then obtain s t where "sl0 = Some (py_slice data s t)" "s < t" "t \<le> length data"
        unfolding is_info_span_def by blast
      then have "py_or sl0 sub = sl0"
        by (simp add: py_or_Some_nonempty py_slice_nonempty)
      with sp0 False show ?thesis by simp
    qed
    from Suc.IH [OF c inv Suc.prems(3)] show ?thesis .
  qed
qed

text \<open>
  C2. When decoding with capture enabled yields a dictionary that holds the key \<open>info\<close>,
  the captured span is the slice \<open>data[s:t]\<close> of the undecoded buffer, of \<open>t - s\<close> bytes,
  where \<open>s\<close> is where decoding the key \<open>info\<close> ended and \<open>t\<close> where decoding the value
  stored under \<open>info\<close>, started at \<open>s\<close>, ended: the very region that decoding the value
  consumed.
\<close>

theorem captured_span_is_info_bytes:
  assumes "bdecode data i True = Inr (BDict d, e, sp)"
    and "dict_get d ''info'' = Some v"
  shows "\<exists>k s t. sp = Some (py_slice data s t) \<and> s < t \<and> t \<le> length data
      \<and> length (py_slice data s t) = t - s
      \<and> bdecode data k False = Inr (BStr ''info'', s, None)
      \<and> bdecode data s False = Inr (v, t, None)"
proof -
  from assms(1) have "bdecode_fuel (Suc (2 * length data)) data i True
      = Some (Inr (BDict d, e, sp))"
    using bdecode_fuel_bdecode [of data i True] by simp
  from bdecode_fuel_Suc_Inr [OF this]
  have "dict_loop (2 * length data) data (Suc i) True [] None = Some (Inr (BDict d, e, sp))"
    by (auto dest: decode_int_result decode_str_result list_loop_progress)
  from dict_loop_info_span [OF this _ assms(2)]
  have "is_info_span data v sp" by simp
  then obtain k s t where "sp = Some (py_slice data s t)" "s < t" "t \<le> length data"
    "bdecode data k False = Inr (BStr ''info'', s, None)"
    "bdecode data s False = Inr (v, t, None)"
    unfolding is_info_span_def by blast
  moreover from this have "length (py_slice data s t) = t - s" by (simp add: py_slice_length)
  ultimately show ?thesis by blast
qed

theorem captured_span_is_info_bytes_witness:
  "bdecode ''d1:ai1e4:infod1:xi5ee1:zi0ee'' 0 True
     = Inr (BDict [(''a'', BInt 1), (''info'', BDict [(''x'', BInt 5)]), (''z'', BInt 0)],
            28, Some ''d1:xi5ee'')
   \<and> dict_get [(''a'', BInt 1), (''info'', BDict [(''x'', BInt 5)]), (''z'', BInt 0)] ''info''
     = Some (BDict [(''x'', BInt 5)])
   \<and> (\<exists>k s t. Some ''d1:xi5ee'' = Some (py_slice ''d1:ai1e4:infod1:xi5ee1:zi0ee'' s t)
        \<and> s < t \<and> t \<le> length ''d1:ai1e4:infod1:xi5ee1:zi0ee''
        \<and> length (py_slice ''d1:ai1e4:infod1:xi5ee1:zi0ee'' s t) = t - s
        \<and> bdecode ''d1:ai1e4:infod1:xi5ee1:zi0ee'' k False = Inr (BStr ''info'', s, None)
        \<and> bdecode ''d1:ai1e4:infod1:xi5ee1:zi0ee'' s False
            = Inr (BDict [(''x'', BInt 5)], t, None))"
proof -
  have a: "bdecode ''d1:ai1e4:infod1:xi5ee1:zi0ee'' 0 True
     = Inr (BDict [(''a'', BInt 1), (''info'', BDict [(''x'', BInt 5)]), (''z'', BInt 0)],
            28, Some ''d1:xi5ee'')"
    by code_simp
  have b: "dict_get [(''a'', BInt 1), (''info'', BDict [(''x'', BInt 5)]), (''z'', BInt 0)]
      ''info'' = Some (BDict [(''x'', BInt 5)])"
    by simp
  from captured_span_is_info_bytes [OF a b] a b show ?thesis by simp
qed

subsection \<open>Termination and nesting depth\<close>

lemma deep_bytes_Suc: "deep_bytes (Suc n) = CHR ''l'' # deep_bytes n @ ''e''"
  by (simp add: deep_bytes_def replicate_append_same)

lemma deep_bytes_length: "length (deep_bytes n) = 2 * n + 2"
  by (simp add: deep_bytes_def)

lemma deep_bytes_hd: "\<exists>r. deep_bytes n = CHR ''l'' # r"
  by (simp add: deep_bytes_def)

lemma py_slice_at:
  "py_slice (p @ c # q) (length p) (Suc (length p)) = [c]"
  by (simp add: py_slice_def)

text \<open>
  The decoder under the recursion limit, \<open>bdecode_rec\<close>, against the decoder as written,
  \<open>bdecode_fuel\<close>: a result other than \<open>RecursionError\<close> is the result of the decoder as
  written, the fuel \<open>2 * len(data) + 1\<close> is enough under every limit, and a decoded value
  is nested no deeper than the nested calls that were allowed.
\<close>

lemma fold_max_le:
  "fold max xs a \<le> (m::nat) \<longleftrightarrow> a \<le> m \<and> (\<forall>x\<in>set xs. x \<le> m)"
  by (induction xs arbitrary: a) auto

lemma depth_deep_list: "depth (deep_list n) = Suc n"
  by (induction n) simp_all

lemma dict_set_values: "kv \<in> set (dict_set d k w) \<Longrightarrow> kv \<in> set d \<or> snd kv = w"
  by (induction d k w rule: dict_set.induct) (auto split: if_splits)

lemma bdecode_rec_Suc_Inr:
  assumes "bdecode_rec (Suc n) fr data i cap = Some (Inr (v, e, s))"
  shows "\<exists>f. fr = Suc f \<and> i < length data \<and>
    (data ! i = CHR ''i'' \<and> decode_int data i = Inr (v, e, s)
     \<or> data ! i = CHR ''l'' \<and> list_rec n f data (Suc i) cap [] None = Some (Inr (v, e, s))
     \<or> data ! i = CHR ''d'' \<and> dict_rec n f data (Suc i) cap [] None = Some (Inr (v, e, s))
     \<or> is_digit (data ! i) \<and> decode_str data i = Inr (v, e, s))"
proof -
  from assms obtain f where f: "fr = Suc f" by (cases fr) auto
  from assms have i: "i < length data" unfolding f by (auto split: if_splits)
  then have sl: "py_slice data i (Suc i) = [data ! i]" by (rule py_slice_one)
  from assms i show ?thesis unfolding f
    by (auto simp: sl in_0_9_one split: if_splits)
qed

lemma list_rec_Suc_Inr:
  assumes "list_rec (Suc n) fr data i cap lst sl = Some (Inr (v, e, s))"
  shows "(i < length data \<and> data ! i = CHR ''e'' \<and> v = BList lst \<and> e = Suc i \<and> s = sl)
    \<or> (\<exists>w i' sub. bdecode_rec n fr data i cap = Some (Inr (w, i', sub))
          \<and> list_rec n fr data i' cap (lst @ [w]) (py_or sl sub) = Some (Inr (v, e, s)))"
proof (cases "py_slice data i (Suc i) = ''e''")
  case True
  then have "i < length data \<and> data ! i = CHR ''e''" by (simp add: py_slice_one_eq)
  with assms True show ?thesis by simp
next
  case False
  with assms show ?thesis by (auto dest!: and_then_Inr)
qed

lemma dict_rec_Suc_Inr:
  assumes "dict_rec (Suc n) fr data i cap d sl = Some (Inr (v, e, s))"
  shows "(i < length data \<and> data ! i = CHR ''e'' \<and> v = BDict d \<and> e = Suc i \<and> s = sl)
    \<or> (\<exists>k i1 ks w i2 sub. bdecode_rec n fr data i False = Some (Inr (BStr k, i1, ks))
          \<and> bdecode_rec n fr data i1 (cap \<and> k \<noteq> ''info'') = Some (Inr (w, i2, sub))
          \<and> dict_rec n fr data i2 cap (dict_set d k w)
               (if cap \<and> k = ''info'' then Some (py_slice data i1 i2) else py_or sl sub)
             = Some (Inr (v, e, s)))"
proof (cases "py_slice data i (Suc i) = ''e''")
  case True
  then have "i < length data \<and> data ! i = CHR ''e''" by (simp add: py_slice_one_eq)
  with assms True show ?thesis by simp
next
  case False
  with assms obtain k i1 ks where k: "bdecode_rec n fr data i False = Some (Inr (k, i1, ks))"
    and rest: "(case k of
            BStr k_bytes \<Rightarrow>
              (if cap \<and> k_bytes = ''info'' then
                 and_then (bdecode_rec n fr data i1 False) (\<lambda>(v, i2, _).
                   dict_rec n fr data i2 cap (dict_set d k_bytes v)
                     (Some (py_slice data i1 i2)))
               else
                 and_then (bdecode_rec n fr data i1 cap) (\<lambda>(v, i2, sub_info).
                   dict_rec n fr data i2 cap (dict_set d k_bytes v)
                     (py_or sl sub_info)))
          | _ \<Rightarrow> Some (Inl BencodeError)) = Some (Inr (v, e, s))"
    by (auto dest!: and_then_Inr)
  from rest obtain kb where kb: "k = BStr kb" by (cases k) auto
  show ?thesis
  proof (cases "cap \<and> kb = ''info''")
    case True
    with rest kb k show ?thesis by (auto dest!: and_then_Inr)
  next
    case False
    with rest kb k show ?thesis by (auto dest!: and_then_Inr)
  qed
qed

lemma and_then_agree:
  assumes "and_then m f = Some r" and "r \<noteq> Inl RecursionError"
    and "\<And>x. m = Some x \<Longrightarrow> x \<noteq> Inl RecursionError \<Longrightarrow> m' = Some x"
    and "\<And>x. m = Some (Inr x) \<Longrightarrow> f x = Some r \<Longrightarrow> f' x = Some r"
  shows "and_then m' f' = Some r"
proof (cases m)
  case None
  with assms(1) show ?thesis by (simp add: and_then_def)
next
  case (Some x)
  show ?thesis
  proof (cases x)
    case (Inl err)
    with Some assms(1) have r: "r = Inl err" by (simp add: and_then_def)
    with assms(2) have "x \<noteq> Inl RecursionError" using Inl by simp
    from assms(3) [OF Some this] show ?thesis using Inl r by (simp add: and_then_def)
  next
    case (Inr y)
    with Some assms(1) have fy: "f y = Some r" by (simp add: and_then_def)
    have "x \<noteq> Inl RecursionError" using Inr by simp
    from assms(3) [OF Some this] assms(4) [OF Some [unfolded Inr] fy] show ?thesis
      using Inr by (simp add: and_then_def)
  qed
qed

lemma rec_agree:
  "(\<forall>fr data i cap r. bdecode_rec n fr data i cap = Some r \<and> r \<noteq> Inl RecursionError
       \<longrightarrow> bdecode_fuel n data i cap = Some r)
   \<and> (\<forall>fr data i cap lst sl r. list_rec n fr data i cap lst sl = Some r
         \<and> r \<noteq> Inl RecursionError
       \<longrightarrow> list_loop n data i cap lst sl = Some r)
   \<and> (\<forall>fr data i cap d sl r. dict_rec n fr data i cap d sl = Some r
         \<and> r \<noteq> Inl RecursionError
       \<longrightarrow> dict_loop n data i cap d sl = Some r)"
proof (induction n)
  case 0
  show ?case by simp
next
  case (Suc n)
  note IH1 = Suc.IH [THEN conjunct1, rule_format, OF conjI]
  note IH2 = Suc.IH [THEN conjunct2, THEN conjunct1, rule_format, OF conjI]
  note IH3 = Suc.IH [THEN conjunct2, THEN conjunct2, rule_format, OF conjI]
  have 1: "bdecode_fuel (Suc n) data i cap = Some r"
    if h: "bdecode_rec (Suc n) fr data i cap = Some r \<and> r \<noteq> Inl RecursionError"
    for fr data i cap r
  proof -
    from h have ne: "r \<noteq> Inl RecursionError" by simp
    from h obtain f where f: "fr = Suc f" by (cases fr) auto
    have l: "list_loop n data (i + 1) cap [] None = Some r"
      if "list_rec n f data (i + 1) cap [] None = Some r"
      using that ne by (rule IH2)
    have d: "dict_loop n data (i + 1) cap [] None = Some r"
      if "dict_rec n f data (i + 1) cap [] None = Some r"
      using that ne by (rule IH3)
    from h l d show ?thesis unfolding f
      by (auto simp del: list_loop.simps dict_loop.simps list_rec.simps dict_rec.simps
          split: if_splits)
  qed
  have 2: "list_loop (Suc n) data i cap lst sl = Some r"
    if h: "list_rec (Suc n) fr data i cap lst sl = Some r \<and> r \<noteq> Inl RecursionError"
    for fr data i cap lst sl r
  proof (cases "py_slice data i (i + 1) = ''e''")
    case True
    then have "list_loop (Suc n) data i cap lst sl = Some (Inr (BList lst, i + 1, sl))"
      and "list_rec (Suc n) fr data i cap lst sl = Some (Inr (BList lst, i + 1, sl))"
      by (simp_all del: bdecode_fuel.simps bdecode_rec.simps)
    with h show ?thesis by simp
  next
    case False
    from h have ne: "r \<noteq> Inl RecursionError" by simp
    have e: "list_loop (Suc n) data i cap lst sl =
        and_then (bdecode_fuel n data i cap) (\<lambda>(v, i', info_sub).
          list_loop n data i' cap (lst @ [v]) (py_or sl info_sub))"
      by (rule trans [OF list_loop.simps(2) if_P [OF False]])
    have e': "list_rec (Suc n) fr data i cap lst sl =
        and_then (bdecode_rec n fr data i cap) (\<lambda>(v, i', info_sub).
          list_rec n fr data i' cap (lst @ [v]) (py_or sl info_sub))"
      by (rule trans [OF list_rec.simps(2) if_P [OF False]])
    from h have "and_then (bdecode_rec n fr data i cap) (\<lambda>(v, i', info_sub).
          list_rec n fr data i' cap (lst @ [v]) (py_or sl info_sub)) = Some r"
      by (simp only: e')
    then have "and_then (bdecode_fuel n data i cap) (\<lambda>(v, i', info_sub).
          list_loop n data i' cap (lst @ [v]) (py_or sl info_sub)) = Some r"
    proof (rule and_then_agree)
      show "r \<noteq> Inl RecursionError" by (rule ne)
    next
      fix x assume "bdecode_rec n fr data i cap = Some x" "x \<noteq> Inl RecursionError"
      then show "bdecode_fuel n data i cap = Some x" by (rule IH1)
    next
      fix x :: decoded
      obtain v i' sub where xe: "x = (v, i', sub)" by (cases x)
      assume "(case x of (v, i', info_sub) \<Rightarrow>
          list_rec n fr data i' cap (lst @ [v]) (py_or sl info_sub)) = Some r"
      then have "list_rec n fr data i' cap (lst @ [v]) (py_or sl sub) = Some r"
        by (simp add: xe)
      then have "list_loop n data i' cap (lst @ [v]) (py_or sl sub) = Some r"
        using ne by (rule IH2)
      then show "(case x of (v, i', info_sub) \<Rightarrow>
          list_loop n data i' cap (lst @ [v]) (py_or sl info_sub)) = Some r"
        by (simp add: xe)
    qed
    then show ?thesis by (simp only: e)
  qed
  have 3: "dict_loop (Suc n) data i cap d sl = Some r"
    if h: "dict_rec (Suc n) fr data i cap d sl = Some r \<and> r \<noteq> Inl RecursionError"
    for fr data i cap d sl r
  proof (cases "py_slice data i (i + 1) = ''e''")
    case True
    then have "dict_loop (Suc n) data i cap d sl = Some (Inr (BDict d, i + 1, sl))"
      and "dict_rec (Suc n) fr data i cap d sl = Some (Inr (BDict d, i + 1, sl))"
      by (simp_all del: bdecode_fuel.simps bdecode_rec.simps)
    with h show ?thesis by simp
  next
    case False
    from h have ne: "r \<noteq> Inl RecursionError" by simp
    let ?body = "\<lambda>(k, i1, u :: bytes option).
          case k of
            BStr k_bytes \<Rightarrow>
              (if cap \<and> k_bytes = ''info'' then
                 and_then (bdecode_fuel n data i1 False) (\<lambda>(v, i2, _).
                   dict_loop n data i2 cap (dict_set d k_bytes v)
                     (Some (py_slice data i1 i2)))
               else
                 and_then (bdecode_fuel n data i1 cap) (\<lambda>(v, i2, sub_info).
                   dict_loop n data i2 cap (dict_set d k_bytes v)
                     (py_or sl sub_info)))
          | _ \<Rightarrow> Some (Inl BencodeError)"
    let ?body' = "\<lambda>(k, i1, u :: bytes option).
          case k of
            BStr k_bytes \<Rightarrow>
              (if cap \<and> k_bytes = ''info'' then
                 and_then (bdecode_rec n fr data i1 False) (\<lambda>(v, i2, _).
                   dict_rec n fr data i2 cap (dict_set d k_bytes v)
                     (Some (py_slice data i1 i2)))
               else
                 and_then (bdecode_rec n fr data i1 cap) (\<lambda>(v, i2, sub_info).
                   dict_rec n fr data i2 cap (dict_set d k_bytes v)
                     (py_or sl sub_info)))
          | _ \<Rightarrow> Some (Inl BencodeError)"
    have e: "dict_loop (Suc n) data i cap d sl =
        and_then (bdecode_fuel n data i False) ?body"
      by (rule trans [OF dict_loop.simps(2) if_P [OF False]])
    have e': "dict_rec (Suc n) fr data i cap d sl =
        and_then (bdecode_rec n fr data i False) ?body'"
      by (rule trans [OF dict_rec.simps(2) if_P [OF False]])
    from h have "and_then (bdecode_rec n fr data i False) ?body' = Some r"
      by (simp only: e')
    then have "and_then (bdecode_fuel n data i False) ?body = Some r"
    proof (rule and_then_agree)
      show "r \<noteq> Inl RecursionError" by (rule ne)
    next
      fix x assume "bdecode_rec n fr data i False = Some x" "x \<noteq> Inl RecursionError"
      then show "bdecode_fuel n data i False = Some x" by (rule IH1)
    next
      fix x :: decoded
      assume b: "?body' x = Some r"
      obtain k i1 u where x: "x = (k, i1, u)" by (cases x)
      have inner: "and_then (bdecode_fuel n data i1 c) (\<lambda>(v, i2, sub).
                   dict_loop n data i2 cap (dict_set d kb v) (g i2 sub)) = Some r"
        if "and_then (bdecode_rec n fr data i1 c) (\<lambda>(v, i2, sub).
                   dict_rec n fr data i2 cap (dict_set d kb v) (g i2 sub)) = Some r"
        for c kb g
        using that
      proof (rule and_then_agree)
        show "r \<noteq> Inl RecursionError" by (rule ne)
      next
        fix y assume "bdecode_rec n fr data i1 c = Some y" "y \<noteq> Inl RecursionError"
        then show "bdecode_fuel n data i1 c = Some y" by (rule IH1)
      next
        fix y :: decoded
        obtain v i2 sub where ye: "y = (v, i2, sub)" by (cases y)
        assume "(case y of (v, i2, sub) \<Rightarrow>
            dict_rec n fr data i2 cap (dict_set d kb v) (g i2 sub)) = Some r"
        then have "dict_rec n fr data i2 cap (dict_set d kb v) (g i2 sub) = Some r"
          by (simp add: ye)
        then have "dict_loop n data i2 cap (dict_set d kb v) (g i2 sub) = Some r"
          using ne by (rule IH3)
        then show "(case y of (v, i2, sub) \<Rightarrow>
            dict_loop n data i2 cap (dict_set d kb v) (g i2 sub)) = Some r"
          by (simp add: ye)
      qed
      show "?body x = Some r"
      proof (cases k)
        case (BStr kb)
        show ?thesis
        proof (cases "cap \<and> kb = ''info''")
          case True
          with b x BStr have "and_then (bdecode_rec n fr data i1 False) (\<lambda>(v, i2, _).
                   dict_rec n fr data i2 cap (dict_set d kb v)
                     (Some (py_slice data i1 i2))) = Some r" by simp
          from inner [of False kb "\<lambda>i2 sub. Some (py_slice data i1 i2)", OF this]
          show ?thesis using True x BStr
            by (simp del: bdecode_fuel.simps dict_loop.simps)
        next
          case False
          with b x BStr have "and_then (bdecode_rec n fr data i1 cap) (\<lambda>(v, i2, sub_info).
                   dict_rec n fr data i2 cap (dict_set d kb v)
                     (py_or sl sub_info)) = Some r" by auto
          from inner [of cap kb "\<lambda>i2 sub. py_or sl sub", OF this]
          show ?thesis using False x BStr
            by (auto simp del: bdecode_fuel.simps dict_loop.simps)
        qed
      qed (use b x in simp_all)
    qed
    then show ?thesis by (simp only: e)
  qed
  show ?case
    apply (rule conjI)
     apply (intro allI impI)
     apply (erule 1)
    apply (rule conjI)
     apply (intro allI impI)
     apply (erule 2)
    apply (intro allI impI)
    apply (erule 3)
    done
qed

lemma bdecode_rec_agree:
  "bdecode_rec n fr data i cap = Some r \<Longrightarrow> r \<noteq> Inl RecursionError
     \<Longrightarrow> bdecode_fuel n data i cap = Some r"
  by (rule rec_agree [of n, THEN conjunct1, rule_format, OF conjI])

lemma bdecode_rec_progress:
  assumes "bdecode_rec n fr data i cap = Some (Inr (v, e, s))"
  shows "i < e \<and> i < length data"
proof -
  from assms have "bdecode_fuel n data i cap = Some (Inr (v, e, s))"
    by (rule bdecode_rec_agree) simp
  then show ?thesis by (rule bdecode_fuel_progress)
qed

lemma rec_enough:
  "(\<forall>fr data i cap. 2 * (length data - i) + 1 \<le> n \<longrightarrow> bdecode_rec n fr data i cap \<noteq> None)
   \<and> (\<forall>fr data i cap lst sl. 2 * (length data - i) + 2 \<le> n
         \<longrightarrow> list_rec n fr data i cap lst sl \<noteq> None)
   \<and> (\<forall>fr data i cap d sl. 2 * (length data - i) + 2 \<le> n
         \<longrightarrow> dict_rec n fr data i cap d sl \<noteq> None)"
proof (induction n)
  case 0
  show ?case by simp
next
  case (Suc n)
  note IH1 = Suc.IH [THEN conjunct1, rule_format]
  note IH2 = Suc.IH [THEN conjunct2, THEN conjunct1, rule_format]
  note IH3 = Suc.IH [THEN conjunct2, THEN conjunct2, rule_format]
  have 1: "bdecode_rec (Suc n) fr data i cap \<noteq> None"
    if h: "2 * (length data - i) + 1 \<le> Suc n" for fr data i cap
  proof (cases fr)
    case 0
    then show ?thesis by simp
  next
    case (Suc f)
    show ?thesis
    proof (cases "i < length data")
      case True
      with h have "2 * (length data - (i + 1)) + 2 \<le> n" by simp
      then have "list_rec n f data (i + 1) cap [] None \<noteq> None"
        and "dict_rec n f data (i + 1) cap [] None \<noteq> None"
        by (rule IH2, rule IH3)
      then show ?thesis unfolding Suc by (auto simp del: list_rec.simps dict_rec.simps)
    next
      case False
      then show ?thesis unfolding Suc by simp
    qed
  qed
  have 2: "list_rec (Suc n) fr data i cap lst sl \<noteq> None"
    if h: "2 * (length data - i) + 2 \<le> Suc n" for fr data i cap lst sl
  proof (cases "py_slice data i (i + 1) = ''e''")
    case True
    then show ?thesis by (simp del: bdecode_rec.simps)
  next
    case False
    have e: "list_rec (Suc n) fr data i cap lst sl =
        and_then (bdecode_rec n fr data i cap) (\<lambda>(v, i', info_sub).
          list_rec n fr data i' cap (lst @ [v]) (py_or sl info_sub))"
      by (rule trans [OF list_rec.simps(2) if_P [OF False]])
    show ?thesis unfolding e
    proof (rule and_then_not_None)
      from h show "bdecode_rec n fr data i cap \<noteq> None" by (intro IH1) simp
    next
      fix x assume x: "bdecode_rec n fr data i cap = Some (Inr x)"
      obtain v i' sub where xe: "x = (v, i', sub)" by (cases x)
      from bdecode_rec_progress [OF x [unfolded xe]] h
      have "2 * (length data - i') + 2 \<le> n" by auto
      then have "list_rec n fr data i' cap (lst @ [v]) (py_or sl sub) \<noteq> None" by (rule IH2)
      then show "(case x of (v, i', info_sub) \<Rightarrow>
          list_rec n fr data i' cap (lst @ [v]) (py_or sl info_sub)) \<noteq> None"
        by (simp add: xe)
    qed
  qed
  have 3: "dict_rec (Suc n) fr data i cap d sl \<noteq> None"
    if h: "2 * (length data - i) + 2 \<le> Suc n" for fr data i cap d sl
  proof (cases "py_slice data i (i + 1) = ''e''")
    case True
    then show ?thesis by (simp del: bdecode_rec.simps)
  next
    case False
    let ?body = "\<lambda>(k, i1, u :: bytes option).
          case k of
            BStr k_bytes \<Rightarrow>
              (if cap \<and> k_bytes = ''info'' then
                 and_then (bdecode_rec n fr data i1 False) (\<lambda>(v, i2, _).
                   dict_rec n fr data i2 cap (dict_set d k_bytes v)
                     (Some (py_slice data i1 i2)))
               else
                 and_then (bdecode_rec n fr data i1 cap) (\<lambda>(v, i2, sub_info).
                   dict_rec n fr data i2 cap (dict_set d k_bytes v)
                     (py_or sl sub_info)))
          | _ \<Rightarrow> Some (Inl BencodeError)"
    have e: "dict_rec (Suc n) fr data i cap d sl =
        and_then (bdecode_rec n fr data i False) ?body"
      by (rule trans [OF dict_rec.simps(2) if_P [OF False]])
    show ?thesis unfolding e
    proof (rule and_then_not_None)
      from h show "bdecode_rec n fr data i False \<noteq> None" by (intro IH1) simp
    next
      fix x assume x: "bdecode_rec n fr data i False = Some (Inr x)"
      obtain k i1 u where xe: "x = (k, i1, u)" by (cases x)
      from bdecode_rec_progress [OF x [unfolded xe]] h
      have i1: "2 * (length data - i1) + 3 \<le> n" by auto
      have inner: "and_then (bdecode_rec n fr data i1 c) (\<lambda>(v, i2, sub).
                   dict_rec n fr data i2 cap (dict_set d kb v) (g i2 sub)) \<noteq> None" for c kb g
      proof (rule and_then_not_None)
        from i1 show "bdecode_rec n fr data i1 c \<noteq> None" by (intro IH1) simp
      next
        fix y assume y: "bdecode_rec n fr data i1 c = Some (Inr y)"
        obtain v i2 sub where ye: "y = (v, i2, sub)" by (cases y)
        from bdecode_rec_progress [OF y [unfolded ye]] i1
        have "2 * (length data - i2) + 2 \<le> n" by auto
        then have "dict_rec n fr data i2 cap (dict_set d kb v) (g i2 sub) \<noteq> None" by (rule IH3)
        then show "(case y of (v, i2, sub) \<Rightarrow>
            dict_rec n fr data i2 cap (dict_set d kb v) (g i2 sub)) \<noteq> None"
          by (simp add: ye)
      qed
      show "?body x \<noteq> None"
      proof (cases k)
        case (BStr kb)
        show ?thesis
        proof (cases "cap \<and> kb = ''info''")
          case True
          then show ?thesis
            using inner [of False kb "\<lambda>i2 sub. Some (py_slice data i1 i2)"]
            by (simp add: xe BStr del: dict_rec.simps bdecode_rec.simps)
        next
          case False
          then show ?thesis
            using inner [of cap kb "\<lambda>i2 sub. py_or sl sub"]
            by (auto simp add: xe BStr simp del: dict_rec.simps bdecode_rec.simps)
        qed
      qed (simp_all add: xe)
    qed
  qed
  show ?case
    apply (rule conjI)
     apply (intro allI impI)
     apply (erule 1)
    apply (rule conjI)
     apply (intro allI impI)
     apply (erule 2)
    apply (intro allI impI)
    apply (erule 3)
    done
qed

lemma bdecode_rec_bdecode_limited:
  "bdecode_rec (2 * length data + 1) fr data i cap = Some (bdecode_limited fr data i cap)"
proof -
  have "2 * (length data - i) + 1 \<le> 2 * length data + 1" by simp
  from rec_enough [THEN conjunct1, rule_format, OF this, of fr cap]
  show ?thesis by (auto simp: bdecode_limited_def)
qed

lemma bdecode_limited_agree:
  assumes "bdecode_limited fr data i cap \<noteq> Inl RecursionError"
  shows "bdecode_limited fr data i cap = bdecode data i cap"
proof -
  from bdecode_rec_bdecode_limited assms
  have "bdecode_fuel (2 * length data + 1) data i cap = Some (bdecode_limited fr data i cap)"
    by (rule bdecode_rec_agree)
  then show ?thesis by (rule bdecode_eqI [symmetric])
qed

lemma rec_depth:
  "(\<forall>fr data i cap v e s. bdecode_rec n fr data i cap = Some (Inr (v, e, s))
       \<longrightarrow> depth v \<le> fr)
   \<and> (\<forall>fr data i cap lst sl v e s. list_rec n fr data i cap lst sl = Some (Inr (v, e, s))
         \<and> (\<forall>x\<in>set lst. depth x \<le> fr) \<longrightarrow> depth v \<le> Suc fr)
   \<and> (\<forall>fr data i cap d sl v e s. dict_rec n fr data i cap d sl = Some (Inr (v, e, s))
         \<and> (\<forall>kv\<in>set d. depth (snd kv) \<le> fr) \<longrightarrow> depth v \<le> Suc fr)"
proof (induction n)
  case 0
  show ?case by simp
next
  case (Suc n)
  note IH1 = Suc.IH [THEN conjunct1, rule_format]
  note IH2 = Suc.IH [THEN conjunct2, THEN conjunct1, rule_format, OF conjI]
  note IH3 = Suc.IH [THEN conjunct2, THEN conjunct2, rule_format, OF conjI]
  have 1: "depth v \<le> fr"
    if "bdecode_rec (Suc n) fr data i cap = Some (Inr (v, e, s))" for fr data i cap v e s
  proof -
    from bdecode_rec_Suc_Inr [OF that] obtain f where f: "fr = Suc f"
      and i: "i < length data"
      and c: "data ! i = CHR ''i'' \<and> decode_int data i = Inr (v, e, s)
     \<or> data ! i = CHR ''l'' \<and> list_rec n f data (Suc i) cap [] None = Some (Inr (v, e, s))
     \<or> data ! i = CHR ''d'' \<and> dict_rec n f data (Suc i) cap [] None = Some (Inr (v, e, s))
     \<or> is_digit (data ! i) \<and> decode_str data i = Inr (v, e, s)" by blast
    from c show ?thesis
    proof (elim disjE conjE)
      assume "decode_int data i = Inr (v, e, s)"
      from decode_int_result [OF this] show ?thesis by (auto simp: f)
    next
      assume "list_rec n f data (Suc i) cap [] None = Some (Inr (v, e, s))"
      then have "depth v \<le> Suc f" by (rule IH2) simp
      then show ?thesis by (simp add: f)
    next
      assume "dict_rec n f data (Suc i) cap [] None = Some (Inr (v, e, s))"
      then have "depth v \<le> Suc f" by (rule IH3) simp
      then show ?thesis by (simp add: f)
    next
      assume "is_digit (data ! i)" and "decode_str data i = Inr (v, e, s)"
      from decode_str_result [OF i this] show ?thesis by (auto simp: f)
    qed
  qed
  have 2: "depth v \<le> Suc fr"
    if h: "list_rec (Suc n) fr data i cap lst sl = Some (Inr (v, e, s))
       \<and> (\<forall>x\<in>set lst. depth x \<le> fr)" for fr data i cap lst sl v e s
  proof -
    from h have a: "list_rec (Suc n) fr data i cap lst sl = Some (Inr (v, e, s))"
      and b: "\<forall>x\<in>set lst. depth x \<le> fr" by simp_all
    from list_rec_Suc_Inr [OF a] show ?thesis
    proof (elim disjE exE conjE)
      assume "v = BList lst"
      with b show ?thesis by (simp add: fold_max_le)
    next
      fix w i' sub
      assume w: "bdecode_rec n fr data i cap = Some (Inr (w, i', sub))"
        and l: "list_rec n fr data i' cap (lst @ [w]) (py_or sl sub) = Some (Inr (v, e, s))"
      from IH1 [OF w] b have "\<forall>x\<in>set (lst @ [w]). depth x \<le> fr" by auto
      with l show ?thesis by (rule IH2)
    qed
  qed
  have 3: "depth v \<le> Suc fr"
    if h: "dict_rec (Suc n) fr data i cap d sl = Some (Inr (v, e, s))
       \<and> (\<forall>kv\<in>set d. depth (snd kv) \<le> fr)" for fr data i cap d sl v e s
  proof -
    from h have a: "dict_rec (Suc n) fr data i cap d sl = Some (Inr (v, e, s))"
      and b: "\<forall>kv\<in>set d. depth (snd kv) \<le> fr" by simp_all
    from dict_rec_Suc_Inr [OF a] show ?thesis
    proof (elim disjE exE conjE)
      assume "v = BDict d"
      with b show ?thesis by (simp add: fold_max_le)
    next
      fix k i1 ks w i2 sub
      assume w: "bdecode_rec n fr data i1 (cap \<and> k \<noteq> ''info'') = Some (Inr (w, i2, sub))"
        and l: "dict_rec n fr data i2 cap (dict_set d k w)
               (if cap \<and> k = ''info'' then Some (py_slice data i1 i2) else py_or sl sub)
             = Some (Inr (v, e, s))"
      from IH1 [OF w] b have "\<forall>kv\<in>set (dict_set d k w). depth (snd kv) \<le> fr"
        by (auto dest: dict_set_values)
      with l show ?thesis by (rule IH3)
    qed
  qed
  show ?case
    apply (rule conjI)
     apply (intro allI impI)
     apply (erule 1)
    apply (rule conjI)
     apply (intro allI impI)
     apply (erule 2)
    apply (intro allI impI)
    apply (erule 3)
    done
qed

lemma bdecode_limited_depth:
  assumes "bdecode_limited fr data i cap = Inr (v, e, s)"
  shows "depth v \<le> fr"
proof -
  from bdecode_rec_bdecode_limited [of data fr i cap] assms
  have "bdecode_rec (2 * length data + 1) fr data i cap = Some (Inr (v, e, s))" by simp
  then show ?thesis by (rule rec_depth [THEN conjunct1, rule_format])
qed

lemma rec_eq_fuel:
  "(\<forall>fr data i cap. n \<le> fr \<longrightarrow> bdecode_rec n fr data i cap = bdecode_fuel n data i cap)
   \<and> (\<forall>fr data i cap lst sl. n \<le> fr
         \<longrightarrow> list_rec n fr data i cap lst sl = list_loop n data i cap lst sl)
   \<and> (\<forall>fr data i cap d sl. n \<le> fr
         \<longrightarrow> dict_rec n fr data i cap d sl = dict_loop n data i cap d sl)"
proof (induction n)
  case 0
  show ?case by simp
next
  case (Suc n)
  note IH1 = Suc.IH [THEN conjunct1, rule_format]
  note IH2 = Suc.IH [THEN conjunct2, THEN conjunct1, rule_format]
  note IH3 = Suc.IH [THEN conjunct2, THEN conjunct2, rule_format]
  have 1: "bdecode_rec (Suc n) fr data i cap = bdecode_fuel (Suc n) data i cap"
    if h: "Suc n \<le> fr" for fr data i cap
  proof -
    from h obtain f where f: "fr = Suc f" and le: "n \<le> f" by (cases fr) auto
    show ?thesis unfolding f
      by (simp only: bdecode_rec.simps bdecode_fuel.simps IH2 [OF le] IH3 [OF le])
  qed
  have 2: "list_rec (Suc n) fr data i cap lst sl = list_loop (Suc n) data i cap lst sl"
    if h: "Suc n \<le> fr" for fr data i cap lst sl
  proof -
    from h have le: "n \<le> fr" by simp
    show ?thesis
      by (simp only: list_rec.simps list_loop.simps IH1 [OF le] IH2 [OF le])
  qed
  have 3: "dict_rec (Suc n) fr data i cap d sl = dict_loop (Suc n) data i cap d sl"
    if h: "Suc n \<le> fr" for fr data i cap d sl
  proof -
    from h have le: "n \<le> fr" by simp
    show ?thesis
      by (simp only: dict_rec.simps dict_loop.simps IH1 [OF le] IH3 [OF le])
  qed
  show ?case
    apply (rule conjI)
     apply (intro allI impI)
     apply (erule 1)
    apply (rule conjI)
     apply (intro allI impI)
     apply (erule 2)
    apply (intro allI impI)
    apply (erule 3)
    done
qed

lemma bdecode_limited_enough_frames:
  assumes "2 * length data + 1 \<le> fr"
  shows "bdecode_limited fr data i cap = bdecode data i cap"
  using rec_eq_fuel [THEN conjunct1, rule_format, OF assms, of data i cap]
  by (simp add: bdecode_limited_def bdecode_def)

lemma and_then_Inl:
  "and_then m f = Some (Inl err)
     \<Longrightarrow> m = Some (Inl err) \<or> (\<exists>x. m = Some (Inr x) \<and> f x = Some (Inl err))"
  by (auto simp: and_then_def split: option.splits sum.splits)

lemma decode_int_no_recursion_error: "decode_int data i \<noteq> Inl RecursionError"
  by (auto simp: decode_int_def split: option.splits)

lemma decode_str_no_recursion_error: "decode_str data i \<noteq> Inl RecursionError"
  by (auto simp: decode_str_def Let_def split: option.splits if_splits)

lemma fuel_no_recursion_error:
  "(\<forall>data i cap. bdecode_fuel n data i cap \<noteq> Some (Inl RecursionError))
   \<and> (\<forall>data i cap lst sl. list_loop n data i cap lst sl \<noteq> Some (Inl RecursionError))
   \<and> (\<forall>data i cap d sl. dict_loop n data i cap d sl \<noteq> Some (Inl RecursionError))"
proof (induction n)
  case 0
  show ?case by simp
next
  case (Suc n)
  note IH1 = Suc.IH [THEN conjunct1, rule_format]
  note IH2 = Suc.IH [THEN conjunct2, THEN conjunct1, rule_format]
  note IH3 = Suc.IH [THEN conjunct2, THEN conjunct2, rule_format]
  have 1: "bdecode_fuel (Suc n) data i cap \<noteq> Some (Inl RecursionError)" for data i cap
    using IH2 [of data "i + 1" cap "[]" None] IH3 [of data "i + 1" cap "[]" None]
      decode_int_no_recursion_error [of data i] decode_str_no_recursion_error [of data i]
    by (auto simp del: list_loop.simps dict_loop.simps)
  have 2: "list_loop (Suc n) data i cap lst sl \<noteq> Some (Inl RecursionError)"
    for data i cap lst sl
  proof
    assume a: "list_loop (Suc n) data i cap lst sl = Some (Inl RecursionError)"
    show False
    proof (cases "py_slice data i (i + 1) = ''e''")
      case True
      with a show False by (simp del: bdecode_fuel.simps)
    next
      case False
      have e: "list_loop (Suc n) data i cap lst sl =
        and_then (bdecode_fuel n data i cap) (\<lambda>(v, i', info_sub).
          list_loop n data i' cap (lst @ [v]) (py_or sl info_sub))"
        by (rule trans [OF list_loop.simps(2) if_P [OF False]])
      from a [unfolded e] show False
        by (auto dest!: and_then_Inl simp: IH1 IH2)
    qed
  qed
  have 3: "dict_loop (Suc n) data i cap d sl \<noteq> Some (Inl RecursionError)"
    for data i cap d sl
  proof
    assume a: "dict_loop (Suc n) data i cap d sl = Some (Inl RecursionError)"
    show False
    proof (cases "py_slice data i (i + 1) = ''e''")
      case True
      with a show False by (simp del: bdecode_fuel.simps)
    next
      case False
      let ?body = "\<lambda>(k, i1, u :: bytes option).
          case k of
            BStr k_bytes \<Rightarrow>
              (if cap \<and> k_bytes = ''info'' then
                 and_then (bdecode_fuel n data i1 False) (\<lambda>(v, i2, _).
                   dict_loop n data i2 cap (dict_set d k_bytes v)
                     (Some (py_slice data i1 i2)))
               else
                 and_then (bdecode_fuel n data i1 cap) (\<lambda>(v, i2, sub_info).
                   dict_loop n data i2 cap (dict_set d k_bytes v)
                     (py_or sl sub_info)))
          | _ \<Rightarrow> Some (Inl BencodeError)"
      have e: "dict_loop (Suc n) data i cap d sl =
        and_then (bdecode_fuel n data i False) ?body"
        by (rule trans [OF dict_loop.simps(2) if_P [OF False]])
      from a [unfolded e] obtain x where
        b: "?body x = Some (Inl RecursionError)"
        by (auto dest!: and_then_Inl simp: IH1)
      obtain k i1 u where x: "x = (k, i1, u)" by (cases x)
      show False
      proof (cases k)
        case (BStr kb)
        show ?thesis
        proof (cases "cap \<and> kb = ''info''")
          case True
          with b x BStr show False
            by (auto dest!: and_then_Inl simp: IH1 IH3
                simp del: bdecode_fuel.simps dict_loop.simps)
        next
          case False
          with b x BStr show False
            by (auto dest!: and_then_Inl simp: IH1 IH3
                simp del: bdecode_fuel.simps dict_loop.simps)
        qed
      qed (use b x in simp_all)
    qed
  qed
  show ?case
    apply (rule conjI)
     apply (intro allI)
     apply (rule 1)
    apply (rule conjI)
     apply (intro allI)
     apply (rule 2)
    apply (intro allI)
    apply (rule 3)
    done
qed

lemma bdecode_no_recursion_error: "bdecode data i cap \<noteq> Inl RecursionError"
  using bdecode_fuel_bdecode [of data i cap]
    fuel_no_recursion_error [THEN conjunct1, rule_format, of "2 * length data + 1" data i cap]
  by auto

lemma deep_decode_rec:
  "n < fr \<Longrightarrow> 2 * n + 2 \<le> f \<Longrightarrow>
     bdecode_rec f fr (p @ deep_bytes n @ q) (length p) cap
       = Some (Inr (deep_list n, length p + 2 * n + 2, None))"
proof (induction n arbitrary: p q fr f)
  case 0
  from 0(1) obtain fr' where fr: "fr = Suc fr'" by (cases fr) auto
  define f2 where "f2 = f - 2"
  from 0(2) have f: "f = Suc (Suc f2)" by (simp add: f2_def)
  have d: "p @ deep_bytes 0 @ q = p @ CHR ''l'' # (CHR ''e'' # q)"
    by (simp add: deep_bytes_def)
  have d': "p @ deep_bytes 0 @ q = (p @ ''l'') @ CHR ''e'' # q"
    by (simp add: deep_bytes_def)
  have s0: "py_slice (p @ deep_bytes 0 @ q) (length p) (Suc (length p)) = ''l''"
    unfolding d by (rule py_slice_at)
  have s1: "py_slice (p @ deep_bytes 0 @ q) (Suc (length p)) (Suc (Suc (length p))) = ''e''"
    unfolding d' using py_slice_at [of "p @ ''l''" "CHR ''e''" q] by simp
  show ?case unfolding fr f
    by (simp add: s0 s1 deep_bytes_length)
next
  case (Suc n)
  from Suc.prems(1) obtain fr' where fr: "fr = Suc fr'" and n: "n < fr'" by (cases fr) auto
  define f3 where "f3 = f - 3"
  from Suc.prems(2) have f: "f = Suc (Suc (Suc f3))" and f3: "2 * n + 2 \<le> Suc f3"
    by (simp_all add: f3_def)
  let ?data = "p @ deep_bytes (Suc n) @ q"
  have d: "?data = p @ CHR ''l'' # (deep_bytes n @ CHR ''e'' # q)"
    by (simp add: deep_bytes_Suc)
  have d': "?data = (p @ ''l'') @ deep_bytes n @ (CHR ''e'' # q)"
    by (simp add: deep_bytes_Suc)
  obtain r where r: "deep_bytes n = CHR ''l'' # r" using deep_bytes_hd by blast
  have d'': "?data = (p @ ''l'') @ CHR ''l'' # (r @ CHR ''e'' # q)"
    unfolding d' r by simp
  have d3: "?data = (p @ ''l'' @ deep_bytes n) @ CHR ''e'' # q"
    by (simp add: deep_bytes_Suc)
  from Suc.IH [where fr = fr' and f = "Suc f3" and p = "p @ ''l''" and q = "CHR ''e'' # q",
      OF n f3]
  have ih: "bdecode_rec (Suc f3) fr' ?data (Suc (length p)) cap
        = Some (Inr (deep_list n, Suc (length p) + 2 * n + 2, None))"
    unfolding d' by simp
  have len: "length p < length ?data" by (simp add: deep_bytes_length)
  have s0: "py_slice ?data (length p) (Suc (length p)) = ''l''"
    unfolding d by (rule py_slice_at)
  have s1: "py_slice ?data (Suc (length p)) (Suc (Suc (length p))) = ''l''"
    unfolding d'' using py_slice_at [of "p @ ''l''" "CHR ''l''" "r @ CHR ''e'' # q"] by simp
  have s2: "py_slice ?data (Suc (length p) + 2 * n + 2) (Suc (Suc (length p) + 2 * n + 2)) = ''e''"
    unfolding d3 using py_slice_at [of "p @ ''l'' @ deep_bytes n" "CHR ''e''" q]
    by (simp add: deep_bytes_length)
  have l2: "list_rec (Suc f3) fr' ?data (Suc (length p) + 2 * n + 2) cap [deep_list n] None
      = Some (Inr (BList [deep_list n], Suc (Suc (length p) + 2 * n + 2), None))"
    using s2 by (simp del: bdecode_rec.simps)
  have l1: "list_rec (Suc (Suc f3)) fr' ?data (Suc (length p)) cap [] None
      = Some (Inr (BList [deep_list n], Suc (Suc (length p) + 2 * n + 2), None))"
    using s1 ih l2 by (simp add: and_then_def del: bdecode_rec.simps list_rec.simps
        add: list_rec.simps(2) [of "Suc f3"])
  show ?case unfolding fr f
    using len s0 l1 by (simp del: list_rec.simps)
qed

lemma deep_decode_rec_error:
  "fr \<le> n \<Longrightarrow> 2 * fr < f \<Longrightarrow>
     bdecode_rec f fr (p @ deep_bytes n @ q) (length p) cap = Some (Inl RecursionError)"
proof (induction fr arbitrary: n p q f)
  case 0
  then obtain f' where "f = Suc f'" by (cases f) auto
  then show ?case by simp
next
  case (Suc fr)
  from Suc.prems(1) obtain n' where n: "n = Suc n'" and n': "fr \<le> n'" by (cases n) auto
  define f2 where "f2 = f - 2"
  from Suc.prems(2) have f: "f = Suc (Suc f2)" and f2: "2 * fr < f2"
    by (simp_all add: f2_def)
  let ?data = "p @ deep_bytes (Suc n') @ q"
  have d: "?data = p @ CHR ''l'' # (deep_bytes n' @ CHR ''e'' # q)"
    by (simp add: deep_bytes_Suc)
  have d': "?data = (p @ ''l'') @ deep_bytes n' @ (CHR ''e'' # q)"
    by (simp add: deep_bytes_Suc)
  obtain r where r: "deep_bytes n' = CHR ''l'' # r" using deep_bytes_hd by blast
  have d'': "?data = (p @ ''l'') @ CHR ''l'' # (r @ CHR ''e'' # q)"
    unfolding d' r by simp
  from Suc.IH [where n = n' and f = f2 and p = "p @ ''l''" and q = "CHR ''e'' # q", OF n' f2]
  have ih: "bdecode_rec f2 fr ?data (Suc (length p)) cap = Some (Inl RecursionError)"
    unfolding d' by simp
  have len: "length p < length ?data" by (simp add: deep_bytes_length)
  have s0: "py_slice ?data (length p) (Suc (length p)) = ''l''"
    unfolding d by (rule py_slice_at)
  have s1: "py_slice ?data (Suc (length p)) (Suc (Suc (length p))) = ''l''"
    unfolding d'' using py_slice_at [of "p @ ''l''" "CHR ''l''" "r @ CHR ''e'' # q"] by simp
  have l1: "list_rec (Suc f2) fr ?data (Suc (length p)) cap [] None
      = Some (Inl RecursionError)"
    using s1 ih by (simp add: and_then_def del: bdecode_rec.simps list_rec.simps
        add: list_rec.simps(2) [of f2])
  show ?case unfolding n f
    using len s0 l1 by (simp del: list_rec.simps)
qed

lemma bdecode_limited_deep:
  "bdecode_limited fr (deep_bytes n) 0 cap =
     (if n < fr then Inr (deep_list n, 2 * n + 2, None) else Inl RecursionError)"
proof (cases "n < fr")
  case True
  have "2 * n + 2 \<le> 2 * length (deep_bytes n) + 1" by (simp add: deep_bytes_length)
  from deep_decode_rec [OF True this, of "[]" "[]" cap] True
  show ?thesis by (simp add: bdecode_limited_def)
next
  case False
  then have le: "fr \<le> n" by simp
  then have "2 * fr < 2 * length (deep_bytes n) + 1" by (simp add: deep_bytes_length)
  from deep_decode_rec_error [OF le this, of "[]" "[]" cap] False
  show ?thesis by (simp add: bdecode_limited_def)
qed

text \<open>
  C8 (as amended). The decoder has no depth parameter and makes no depth check of its
  own: the only bound on nesting is the interpreter's recursion limit. Under every limit
  the decode is a total function of the buffer, the offset and the capture flag
  (\<open>2 * len(data) + 1\<close> units of fuel are always enough). Its result is either
  \<open>RecursionError\<close>, the exhaustion of the interpreter's call stack and not a
  \<open>BencodeError\<close>, or exactly what the function computes when no call is refused, which
  is never \<open>RecursionError\<close>. A value that it returns is never nested deeper than the
  number of nested calls that the interpreter allowed, and an allowance of
  \<open>2 * len(data) + 1\<close> nested calls is never exhausted. In particular \<open>n + 1\<close> nested
  lists decode when more than \<open>n\<close> nested calls are allowed and raise \<open>RecursionError\<close>
  otherwise.
\<close>

theorem bdecode_recursion_limit:
  "(\<exists>r. bdecode_rec (2 * length data + 1) limit data i cap = Some r
        \<and> bdecode_limited limit data i cap = r)
   \<and> (bdecode_limited limit data i cap = Inl RecursionError
        \<or> bdecode_limited limit data i cap = bdecode data i cap)
   \<and> bdecode data i cap \<noteq> Inl RecursionError
   \<and> (bdecode_limited limit data i cap = Inr (v, e, s) \<longrightarrow> depth v \<le> limit)
   \<and> (2 * length data + 1 \<le> limit
        \<longrightarrow> bdecode_limited limit data i cap = bdecode data i cap)
   \<and> bdecode_limited limit (deep_bytes n) 0 cap =
        (if n < limit then Inr (deep_list n, 2 * n + 2, None) else Inl RecursionError)"
proof (intro conjI impI)
  show "\<exists>r. bdecode_rec (2 * length data + 1) limit data i cap = Some r
        \<and> bdecode_limited limit data i cap = r"
    using bdecode_rec_bdecode_limited [of data limit i cap] by simp
  show "bdecode_limited limit data i cap = Inl RecursionError
        \<or> bdecode_limited limit data i cap = bdecode data i cap"
    using bdecode_limited_agree [of limit data i cap] by blast
  show "bdecode data i cap \<noteq> Inl RecursionError" by (rule bdecode_no_recursion_error)
  show "depth v \<le> limit" if "bdecode_limited limit data i cap = Inr (v, e, s)"
    using that by (rule bdecode_limited_depth)
  show "bdecode_limited limit data i cap = bdecode data i cap"
    if "2 * length data + 1 \<le> limit"
    using that by (rule bdecode_limited_enough_frames)
  show "bdecode_limited limit (deep_bytes n) 0 cap =
        (if n < limit then Inr (deep_list n, 2 * n + 2, None) else Inl RecursionError)"
    by (rule bdecode_limited_deep)
qed

theorem bdecode_recursion_limit_witness:
  "bdecode_limited 2 ''llee'' 0 False = Inr (BList [BList []], 4, None)
   \<and> depth (BList [BList []]) \<le> 2
   \<and> bdecode_limited 2 ''llee'' 0 False = bdecode ''llee'' 0 False
   \<and> 2 * length ''llee'' + 1 \<le> (9::nat)
   \<and> bdecode_limited 9 ''llee'' 0 False = bdecode ''llee'' 0 False
   \<and> bdecode_limited 1 ''llee'' 0 False = Inl RecursionError
   \<and> bdecode ''llee'' 0 False \<noteq> Inl RecursionError
   \<and> bdecode_limited 1 (deep_bytes 1) 0 False = Inl RecursionError
   \<and> bdecode_limited 2 (deep_bytes 1) 0 False = Inr (deep_list 1, 4, None)"
proof -
  have a: "bdecode_limited 2 ''llee'' 0 False = Inr (BList [BList []], 4, None)"
    "bdecode_limited (Suc 0) ''llee'' 0 False = Inl RecursionError"
    by code_simp+
  show ?thesis
    using bdecode_recursion_limit [where data = "''llee''" and limit = 2 and i = 0
        and cap = False and v = "BList [BList []]" and e = 4 and s = None and n = 1]
      bdecode_recursion_limit [where data = "''llee''" and limit = 9 and i = 0
        and cap = False and v = "BList [BList []]" and e = 4 and s = None and n = 1]
      bdecode_recursion_limit [where data = "''llee''" and limit = 1 and i = 0
        and cap = False and v = "BList [BList []]" and e = 4 and s = None and n = 1]
    by (simp add: a)
qed

theorem recursion_error_counterexample:
  "bdecode_limited 1000 (deep_bytes 1000) 0 False = Inl RecursionError
   \<and> bdecode_limited 1001 (deep_bytes 1000) 0 False = Inr (deep_list 1000, 2002, None)"
  by (simp add: bdecode_limited_deep)

subsection \<open>Decoding is local to the bytes it reads\<close>

lemma list_loop_step:
  assumes "py_slice data i (Suc i) \<noteq> ''e''"
    and "bdecode_fuel n data i cap = Some (Inr (w, i', sub))"
  shows "list_loop (Suc n) data i cap lst sl
    = list_loop n data i' cap (lst @ [w]) (py_or sl sub)"
  using assms by (simp add: and_then_def del: bdecode_fuel.simps list_loop.simps
      add: list_loop.simps(2) [of n])

lemma dict_loop_step:
  assumes "py_slice data i (Suc i) \<noteq> ''e''"
    and "bdecode_fuel n data i False = Some (Inr (BStr k, i1, ks))"
    and "bdecode_fuel n data i1 (cap \<and> k \<noteq> ''info'') = Some (Inr (w, i2, sub))"
  shows "dict_loop (Suc n) data i cap d sl
    = dict_loop n data i2 cap (dict_set d k w)
        (if cap \<and> k = ''info'' then Some (py_slice data i1 i2) else py_or sl sub)"
proof (cases "cap \<and> k = ''info''")
  case True
  with assms show ?thesis
    by (simp add: and_then_def del: bdecode_fuel.simps dict_loop.simps
        add: dict_loop.simps(2) [of n])
next
  case False
  with assms show ?thesis
    by (auto simp add: and_then_def simp del: bdecode_fuel.simps dict_loop.simps
        simp add: dict_loop.simps(2) [of n])
qed

lemma bdecode_fuel_not_e:
  assumes "bdecode_fuel n x i cap = Some (Inr (v, e, s))"
  shows "i < length x \<and> x ! i \<noteq> CHR ''e''"
proof (cases n)
  case 0
  with assms show ?thesis by simp
next
  case (Suc m)
  from bdecode_fuel_Suc_Inr [OF assms [unfolded Suc]] show ?thesis
    by (auto dest: digit_not_sign)
qed

lemma py_slice_one_app:
  "i < length x \<Longrightarrow> py_slice (p @ x @ q) (length p + i) (Suc (length p + i)) = [x ! i]"
  using py_slice_app [of "Suc i" x p q i] by (simp add: py_slice_one)

lemma decode_int_local:
  assumes "decode_int x i = Inr (v, e, s)"
  shows "decode_int (p @ x @ q) (length p + i) = Inr (v, length p + e, s)"
proof -
  from decode_int_result [OF assms] obtain j num where
    j: "py_index x (CHR ''e'') i = Some j" and n: "py_int (py_slice x (i + 1) j) = Some num"
    and r: "v = BInt num" "e = j + 1" "s = None" by blast
  from py_index_SomeD(2) [OF j] have "j \<le> length x" by simp
  then have "py_slice (p @ x @ q) (length p + (i + 1)) (length p + j) = py_slice x (i + 1) j"
    by (rule py_slice_app)
  with n py_index_app [OF j, of p q] r show ?thesis
    by (simp add: decode_int_def)
qed

lemma decode_str_local:
  assumes "i < length x" and "is_digit (x ! i)" and "decode_str x i = Inr (v, e, s)"
    and "e \<le> length x"
  shows "decode_str (p @ x @ q) (length p + i) = Inr (v, length p + e, s)"
proof -
  from decode_str_result [OF assms(1-3)] obtain j len where
    j: "py_index x (CHR '':'') i = Some j" and n: "py_int (py_slice x i j) = Some (int len)"
    and r: "e = j + 1 + len" "v = BStr (py_slice x (j + 1) e)" "s = None" by blast
  from py_index_SomeD(2) [OF j] have "j \<le> length x" by simp
  then have a: "py_slice (p @ x @ q) (length p + i) (length p + j) = py_slice x i j"
    by (rule py_slice_app)
  from assms(4) have b: "py_slice (p @ x @ q) (length p + (j + 1)) (length p + e)
      = py_slice x (j + 1) e"
    by (rule py_slice_app)
  have c: "nat (int (length p + j + 1) + int len) = length p + e"
    using r(1) by simp
  from n py_index_app [OF j, of p q] r a b c show ?thesis
    by (simp add: decode_str_def add.assoc)
qed

lemma decode_local:
  "(\<forall>x i cap v e s. bdecode_fuel n x i cap = Some (Inr (v, e, s)) \<and> e \<le> length x
       \<longrightarrow> bdecode_fuel n (p @ x @ q) (length p + i) cap = Some (Inr (v, length p + e, s)))
   \<and> (\<forall>x i cap lst sl v e s. list_loop n x i cap lst sl = Some (Inr (v, e, s))
       \<longrightarrow> list_loop n (p @ x @ q) (length p + i) cap lst sl
             = Some (Inr (v, length p + e, s)))
   \<and> (\<forall>x i cap d sl v e s. dict_loop n x i cap d sl = Some (Inr (v, e, s))
       \<longrightarrow> dict_loop n (p @ x @ q) (length p + i) cap d sl
             = Some (Inr (v, length p + e, s)))"
proof (induction n)
  case 0
  show ?case by simp
next
  case (Suc n)
  note IH1 = Suc.IH [THEN conjunct1, rule_format, OF conjI]
  note IH2 = Suc.IH [THEN conjunct2, THEN conjunct1, rule_format]
  note IH3 = Suc.IH [THEN conjunct2, THEN conjunct2, rule_format]
  have 1: "bdecode_fuel (Suc n) (p @ x @ q) (length p + i) cap
      = Some (Inr (v, length p + e, s))"
    if h: "bdecode_fuel (Suc n) x i cap = Some (Inr (v, e, s))" and e: "e \<le> length x"
    for x i cap v e s
  proof -
    from bdecode_fuel_Suc_Inr [OF h] have i: "i < length x"
      and c: "x ! i = CHR ''i'' \<and> decode_int x i = Inr (v, e, s)
     \<or> x ! i = CHR ''l'' \<and> list_loop n x (Suc i) cap [] None = Some (Inr (v, e, s))
     \<or> x ! i = CHR ''d'' \<and> dict_loop n x (Suc i) cap [] None = Some (Inr (v, e, s))
     \<or> is_digit (x ! i) \<and> decode_str x i = Inr (v, e, s)" by blast+
    from i have len: "\<not> length (p @ x @ q) \<le> length p + i" by simp
    from i have sl: "py_slice (p @ x @ q) (length p + i) (Suc (length p + i)) = [x ! i]"
      by (rule py_slice_one_app)
    from c show ?thesis
    proof (elim disjE conjE)
      assume "x ! i = CHR ''i''" and "decode_int x i = Inr (v, e, s)"
      with len sl decode_int_local [of x i v e s p q] show ?thesis by simp
    next
      assume a: "x ! i = CHR ''l''" and "list_loop n x (Suc i) cap [] None = Some (Inr (v, e, s))"
      from IH2 [OF this(2)] len sl a show ?thesis by (simp del: list_loop.simps)
    next
      assume a: "x ! i = CHR ''d''" and "dict_loop n x (Suc i) cap [] None = Some (Inr (v, e, s))"
      from IH3 [OF this(2)] len sl a show ?thesis by (simp del: dict_loop.simps)
    next
      assume a: "is_digit (x ! i)" and "decode_str x i = Inr (v, e, s)"
      from decode_str_local [OF i this e, of p q] len sl a show ?thesis
        by (simp add: in_0_9_one digit_not_letter)
    qed
  qed
  have 2: "list_loop (Suc n) (p @ x @ q) (length p + i) cap lst sl
      = Some (Inr (v, length p + e, s))"
    if h: "list_loop (Suc n) x i cap lst sl = Some (Inr (v, e, s))" for x i cap lst sl v e s
    using list_loop_Suc_Inr [OF h]
  proof (elim disjE exE conjE)
    assume a: "i < length x" "x ! i = CHR ''e''" "v = BList lst" "e = Suc i" "s = sl"
    from a(1) have "py_slice (p @ x @ q) (length p + i) (Suc (length p + i)) = [x ! i]"
      by (rule py_slice_one_app)
    with a show ?thesis by (simp del: bdecode_fuel.simps)
  next
    fix w i' sub
    assume a: "bdecode_fuel n x i cap = Some (Inr (w, i', sub))"
      and b: "list_loop n x i' cap (lst @ [w]) (py_or sl sub) = Some (Inr (v, e, s))"
    from list_loop_progress [OF b] have "i' \<le> length x" by simp
    from IH1 [OF a this] have a': "bdecode_fuel n (p @ x @ q) (length p + i) cap
        = Some (Inr (w, length p + i', sub))" .
    from bdecode_fuel_not_e [OF a] have "i < length x" "x ! i \<noteq> CHR ''e''" by simp_all
    then have ne: "py_slice (p @ x @ q) (length p + i) (Suc (length p + i)) \<noteq> ''e''"
      by (simp add: py_slice_one_app)
    show ?thesis unfolding list_loop_step [OF ne a'] by (rule IH2 [OF b])
  qed
  have 3: "dict_loop (Suc n) (p @ x @ q) (length p + i) cap d sl
      = Some (Inr (v, length p + e, s))"
    if h: "dict_loop (Suc n) x i cap d sl = Some (Inr (v, e, s))" for x i cap d sl v e s
    using dict_loop_Suc_Inr [OF h]
  proof (elim disjE exE conjE)
    assume a: "i < length x" "x ! i = CHR ''e''" "v = BDict d" "e = Suc i" "s = sl"
    from a(1) have "py_slice (p @ x @ q) (length p + i) (Suc (length p + i)) = [x ! i]"
      by (rule py_slice_one_app)
    with a show ?thesis by (simp del: bdecode_fuel.simps)
  next
    fix k i1 ks w i2 sub
    assume a: "bdecode_fuel n x i False = Some (Inr (BStr k, i1, ks))"
      and b: "bdecode_fuel n x i1 (cap \<and> k \<noteq> ''info'') = Some (Inr (w, i2, sub))"
      and c: "dict_loop n x i2 cap (dict_set d k w)
               (if cap \<and> k = ''info'' then Some (py_slice x i1 i2) else py_or sl sub)
             = Some (Inr (v, e, s))"
    from dict_loop_progress [OF c] have i2: "i2 \<le> length x" by simp
    moreover from bdecode_fuel_progress [OF b] have "i1 < i2" by simp
    ultimately have i1: "i1 \<le> length x" by simp
    from IH1 [OF a i1] have a': "bdecode_fuel n (p @ x @ q) (length p + i) False
        = Some (Inr (BStr k, length p + i1, ks))" .
    from IH1 [OF b i2] have b': "bdecode_fuel n (p @ x @ q) (length p + i1) (cap \<and> k \<noteq> ''info'')
        = Some (Inr (w, length p + i2, sub))" .
    from bdecode_fuel_not_e [OF a] have "i < length x" "x ! i \<noteq> CHR ''e''" by simp_all
    then have ne: "py_slice (p @ x @ q) (length p + i) (Suc (length p + i)) \<noteq> ''e''"
      by (simp add: py_slice_one_app)
    have sl: "py_slice (p @ x @ q) (length p + i1) (length p + i2) = py_slice x i1 i2"
      using i2 by (rule py_slice_app)
    show ?thesis unfolding dict_loop_step [OF ne a' b'] sl by (rule IH3 [OF c])
  qed
  show ?case
    apply (rule conjI)
     apply (intro allI impI)
     apply (erule conjE)
     apply (erule (1) 1)
    apply (rule conjI)
     apply (intro allI impI)
     apply (erule 2)
    apply (intro allI impI)
    apply (erule 3)
    done
qed

lemma bdecode_fuel_local:
  assumes "bdecode_fuel n x i cap = Some (Inr (v, e, s))" and "e \<le> length x"
  shows "bdecode_fuel n (p @ x @ q) (length p + i) cap = Some (Inr (v, length p + e, s))"
  using decode_local [of n p q, THEN conjunct1, rule_format, OF conjI, OF assms] .

subsection \<open>The decoded value does not depend on the capture flag\<close>

lemma bdecode_fuel_Suc_intro:
  assumes "i < length x"
  shows "x ! i = CHR ''l'' \<Longrightarrow> bdecode_fuel (Suc n) x i cap = list_loop n x (Suc i) cap [] None"
    and "x ! i = CHR ''d'' \<Longrightarrow> bdecode_fuel (Suc n) x i cap = dict_loop n x (Suc i) cap [] None"
    and "x ! i = CHR ''i'' \<Longrightarrow> bdecode_fuel (Suc n) x i cap = Some (decode_int x i)"
  using assms by (simp_all add: py_slice_one del: list_loop.simps dict_loop.simps)

lemma capture_irrelevant:
  "(\<forall>x i v e s0 cap. bdecode_fuel n x i False = Some (Inr (v, e, s0))
       \<longrightarrow> (\<exists>s. bdecode_fuel n x i cap = Some (Inr (v, e, s))))
   \<and> (\<forall>x i lst sl0 v e s0 cap sl. list_loop n x i False lst sl0 = Some (Inr (v, e, s0))
       \<longrightarrow> (\<exists>s. list_loop n x i cap lst sl = Some (Inr (v, e, s))))
   \<and> (\<forall>x i d sl0 v e s0 cap sl. dict_loop n x i False d sl0 = Some (Inr (v, e, s0))
       \<longrightarrow> (\<exists>s. dict_loop n x i cap d sl = Some (Inr (v, e, s))))"
proof (induction n)
  case 0
  show ?case by simp
next
  case (Suc n)
  note IH1 = Suc.IH [THEN conjunct1, rule_format]
  note IH2 = Suc.IH [THEN conjunct2, THEN conjunct1, rule_format]
  note IH3 = Suc.IH [THEN conjunct2, THEN conjunct2, rule_format]
  have 1: "\<exists>s. bdecode_fuel (Suc n) x i cap = Some (Inr (v, e, s))"
    if h: "bdecode_fuel (Suc n) x i False = Some (Inr (v, e, s0))" for x i v e s0 cap
  proof -
    from bdecode_fuel_Suc_Inr [OF h] have i: "i < length x"
      and c: "x ! i = CHR ''i'' \<and> decode_int x i = Inr (v, e, s0)
     \<or> x ! i = CHR ''l'' \<and> list_loop n x (Suc i) False [] None = Some (Inr (v, e, s0))
     \<or> x ! i = CHR ''d'' \<and> dict_loop n x (Suc i) False [] None = Some (Inr (v, e, s0))
     \<or> is_digit (x ! i) \<and> decode_str x i = Inr (v, e, s0)" by blast+
    from c show ?thesis
    proof (elim disjE conjE)
      assume "x ! i = CHR ''i''" "decode_int x i = Inr (v, e, s0)"
      then show ?thesis by (simp only: bdecode_fuel_Suc_intro(3) [OF i]) simp
    next
      assume a: "x ! i = CHR ''l''" and "list_loop n x (Suc i) False [] None = Some (Inr (v, e, s0))"
      from IH2 [OF this(2), of cap None] show ?thesis
        by (simp only: bdecode_fuel_Suc_intro(1) [OF i a])
    next
      assume a: "x ! i = CHR ''d''" and "dict_loop n x (Suc i) False [] None = Some (Inr (v, e, s0))"
      from IH3 [OF this(2), of cap None] show ?thesis
        by (simp only: bdecode_fuel_Suc_intro(2) [OF i a])
    next
      assume "is_digit (x ! i)" "decode_str x i = Inr (v, e, s0)"
      then show ?thesis by (simp only: bdecode_fuel_digit [OF i]) simp
    qed
  qed
  have 2: "\<exists>s. list_loop (Suc n) x i cap lst sl = Some (Inr (v, e, s))"
    if h: "list_loop (Suc n) x i False lst sl0 = Some (Inr (v, e, s0))"
    for x i lst sl0 v e s0 cap sl
    using list_loop_Suc_Inr [OF h]
  proof (elim disjE exE conjE)
    assume a: "i < length x" "x ! i = CHR ''e''" "v = BList lst" "e = Suc i"
    then show ?thesis by (simp add: py_slice_one del: bdecode_fuel.simps)
  next
    fix w i' sub
    assume a: "bdecode_fuel n x i False = Some (Inr (w, i', sub))"
      and b: "list_loop n x i' False (lst @ [w]) (py_or sl0 sub) = Some (Inr (v, e, s0))"
    from IH1 [OF a, of cap] obtain sub' where
      a': "bdecode_fuel n x i cap = Some (Inr (w, i', sub'))" by blast
    from bdecode_fuel_not_e [OF a] have ne: "py_slice x i (Suc i) \<noteq> ''e''"
      by (simp add: py_slice_one)
    from IH2 [OF b, of cap "py_or sl sub'"] show ?thesis
      by (simp only: list_loop_step [OF ne a'])
  qed
  have 3: "\<exists>s. dict_loop (Suc n) x i cap d sl = Some (Inr (v, e, s))"
    if h: "dict_loop (Suc n) x i False d sl0 = Some (Inr (v, e, s0))"
    for x i d sl0 v e s0 cap sl
    using dict_loop_Suc_Inr [OF h]
  proof (elim disjE exE conjE)
    assume a: "i < length x" "x ! i = CHR ''e''" "v = BDict d" "e = Suc i"
    then show ?thesis by (simp add: py_slice_one del: bdecode_fuel.simps)
  next
    fix k i1 ks w i2 sub
    assume a: "bdecode_fuel n x i False = Some (Inr (BStr k, i1, ks))"
      and b: "bdecode_fuel n x i1 (False \<and> k \<noteq> ''info'') = Some (Inr (w, i2, sub))"
      and c: "dict_loop n x i2 False (dict_set d k w)
               (if False \<and> k = ''info'' then Some (py_slice x i1 i2) else py_or sl0 sub)
             = Some (Inr (v, e, s0))"
    from b have "bdecode_fuel n x i1 False = Some (Inr (w, i2, sub))" by simp
    from IH1 [OF this, of "cap \<and> k \<noteq> ''info''"] obtain sub' where
      b': "bdecode_fuel n x i1 (cap \<and> k \<noteq> ''info'') = Some (Inr (w, i2, sub'))" by blast
    from bdecode_fuel_not_e [OF a] have ne: "py_slice x i (Suc i) \<noteq> ''e''"
      by (simp add: py_slice_one)
    from IH3 [OF c, of cap
        "if cap \<and> k = ''info'' then Some (py_slice x i1 i2) else py_or sl sub'"]
    show ?thesis
      by (simp only: dict_loop_step [OF ne a b'])
  qed
  show ?case
    apply (rule conjI)
     apply (intro allI impI)
     apply (erule 1)
    apply (rule conjI)
     apply (intro allI impI)
     apply (erule 2)
    apply (intro allI impI)
    apply (erule 3)
    done
qed

lemma bdecode_fuel_any_capture:
  "bdecode_fuel n x i False = Some (Inr (v, e, s0))
     \<Longrightarrow> \<exists>s. bdecode_fuel n x i cap = Some (Inr (v, e, s))"
  by (rule capture_irrelevant [of n, THEN conjunct1, rule_format])

subsection \<open>Duplicate keys\<close>

lemma encodes_fuel:
  assumes "encodes x v"
  shows "\<exists>f. bdecode_fuel f (p @ x @ q) (length p) False
            = Some (Inr (v, length p + length x, None))"
proof -
  from assms have "bdecode_fuel (2 * length x + 1) x 0 False = Some (Inr (v, length x, None))"
    using bdecode_fuel_bdecode [of x 0 False] by (simp add: encodes_def)
  then have "bdecode_fuel (2 * length x + 1) (p @ x @ q) (length p + 0) False
      = Some (Inr (v, length p + length x, None))"
    by (rule bdecode_fuel_local) simp
  then show ?thesis
    by (intro exI [of _ "2 * length x + 1"]) (simp del: bdecode_fuel.simps)
qed

lemma map_of_assign_all:
  "map_of (assign_all d kvs) key =
     (case map_of (rev kvs) key of Some v \<Rightarrow> Some v | None \<Rightarrow> map_of d key)"
proof (induction kvs arbitrary: d)
  case Nil
  show ?case by (simp add: assign_all_def)
next
  case (Cons kv kvs)
  obtain k v where kv: "kv = (k, v)" by (cases kv)
  have "assign_all d (kv # kvs) = assign_all (dict_set d k v) kvs"
    by (simp add: assign_all_def kv)
  then show ?case
    by (simp add: Cons.IH map_of_dict_set kv map_add_def split: option.splits)
qed

lemma dict_loop_entries:
  assumes "list_all2 (\<lambda>(kb, vb) (k, v). encodes kb (BStr k) \<and> encodes vb v) ebs kvs"
  shows "\<exists>f sp. dict_loop f (p @ concat (map (\<lambda>(kb, vb). kb @ vb) ebs) @ CHR ''e'' # q)
            (length p) cap d sl
        = Some (Inr (BDict (assign_all d kvs),
                     length p + length (concat (map (\<lambda>(kb, vb). kb @ vb) ebs)) + 1, sp))"
  using assms
proof (induction ebs kvs arbitrary: p d sl rule: list_all2_induct)
  case Nil
  have "dict_loop (Suc 0) (p @ CHR ''e'' # q) (length p) cap d sl
      = Some (Inr (BDict d, length p + 1, sl))"
    by (simp add: py_slice_at)
  then show ?case
    by (intro exI [of _ "Suc 0"] exI [of _ sl]) (simp add: assign_all_def del: dict_loop.simps)
next
  case (Cons eb ebs kv kvs)
  obtain kb vb where eb: "eb = (kb, vb)" by (cases eb)
  obtain k v where kv: "kv = (k, v)" by (cases kv)
  from Cons.hyps(1) eb kv have ek: "encodes kb (BStr k)" and ev: "encodes vb v" by simp_all
  let ?rest = "concat (map (\<lambda>(kb, vb). kb @ vb) ebs)"
  let ?data = "p @ concat (map (\<lambda>(kb, vb). kb @ vb) (eb # ebs)) @ CHR ''e'' # q"
  have d1: "?data = p @ kb @ (vb @ ?rest @ CHR ''e'' # q)" by (simp add: eb)
  have d2: "?data = (p @ kb) @ vb @ (?rest @ CHR ''e'' # q)" by (simp add: eb)
  have d3: "?data = (p @ kb @ vb) @ ?rest @ CHR ''e'' # q" by (simp add: eb)
  from encodes_fuel [OF ek, of p "vb @ ?rest @ CHR ''e'' # q"] obtain f1 where
    f1: "bdecode_fuel f1 ?data (length p) False
        = Some (Inr (BStr k, length p + length kb, None))"
    unfolding d1 by blast
  from encodes_fuel [OF ev, of "p @ kb" "?rest @ CHR ''e'' # q"] obtain f2 where
    "bdecode_fuel f2 ?data (length p + length kb) False
        = Some (Inr (v, length p + length kb + length vb, None))"
    unfolding d2 by (auto simp del: bdecode_fuel.simps)
  from bdecode_fuel_any_capture [OF this, of "cap \<and> k \<noteq> ''info''"] obtain sub where
    f2: "bdecode_fuel f2 ?data (length p + length kb) (cap \<and> k \<noteq> ''info'')
        = Some (Inr (v, length p + length kb + length vb, sub))" by blast
  let ?sl = "if cap \<and> k = ''info''
      then Some (py_slice ?data (length p + length kb) (length p + length kb + length vb))
      else py_or sl sub"
  from Cons.IH [of "p @ kb @ vb" "dict_set d k v" ?sl] obtain f3 sp where
    f3: "dict_loop f3 ?data (length p + length kb + length vb) cap (dict_set d k v) ?sl
        = Some (Inr (BDict (assign_all (dict_set d k v) kvs),
                     length p + length kb + length vb + length ?rest + 1, sp))"
    unfolding d3 by (auto simp: add.assoc simp del: dict_loop.simps)
  let ?f = "max f1 (max f2 f3)"
  from f1 have g1: "bdecode_fuel ?f ?data (length p) False
        = Some (Inr (BStr k, length p + length kb, None))"
    by (rule bdecode_fuel_mono) simp
  from f2 have g2: "bdecode_fuel ?f ?data (length p + length kb) (cap \<and> k \<noteq> ''info'')
        = Some (Inr (v, length p + length kb + length vb, sub))"
    by (rule bdecode_fuel_mono) simp
  from f3 have g3: "dict_loop ?f ?data (length p + length kb + length vb) cap
        (dict_set d k v) ?sl
        = Some (Inr (BDict (assign_all (dict_set d k v) kvs),
                     length p + length kb + length vb + length ?rest + 1, sp))"
    by (rule dict_loop_mono) simp
  from bdecode_fuel_not_e [OF g1] have ne: "py_slice ?data (length p) (Suc (length p)) \<noteq> ''e''"
    by (simp add: py_slice_one)
  have "dict_loop (Suc ?f) ?data (length p) cap d sl
      = Some (Inr (BDict (assign_all (dict_set d k v) kvs),
                     length p + length kb + length vb + length ?rest + 1, sp))"
    unfolding dict_loop_step [OF ne g1 g2] using g3 by simp
  moreover have "assign_all (dict_set d k v) kvs = assign_all d (kv # kvs)"
    by (simp add: assign_all_def kv)
  moreover have "length p + length kb + length vb + length ?rest + 1
      = length p + length (concat (map (\<lambda>(kb, vb). kb @ vb) (eb # ebs))) + 1"
    by (simp add: eb)
  ultimately show ?case by metis
qed

lemma bdecode_dict_bytes:
  assumes "list_all2 (\<lambda>(kb, vb) (k, v). encodes kb (BStr k) \<and> encodes vb v) ebs kvs"
  shows "\<exists>sp. bdecode (dict_bytes ebs) 0 cap
    = Inr (BDict (assign_all [] kvs), length (dict_bytes ebs), sp)"
proof -
  from dict_loop_entries [OF assms, of "''d''" "[]" cap "[]" None] obtain f sp where
    f: "dict_loop f (dict_bytes ebs) (Suc 0) cap [] None
        = Some (Inr (BDict (assign_all [] kvs), length (dict_bytes ebs), sp))"
    by (auto simp: dict_bytes_def simp del: dict_loop.simps)
  have "py_slice (dict_bytes ebs) 0 (Suc 0) = ''d''"
    by (simp add: dict_bytes_def py_slice_def)
  with f have "bdecode_fuel (Suc f) (dict_bytes ebs) 0 cap
      = Some (Inr (BDict (assign_all [] kvs), length (dict_bytes ebs), sp))"
    by (simp add: dict_bytes_def del: dict_loop.simps)
  then have "bdecode (dict_bytes ebs) 0 cap
    = Inr (BDict (assign_all [] kvs), length (dict_bytes ebs), sp)"
    by (rule bdecode_eqI)
  then show ?thesis ..
qed

text \<open>
  C9. Let a buffer be a dictionary \<open>d<key><value>...e\<close> whose entries are encodings of keys
  and values, in any order and with any repetition of keys. Decoding it succeeds, with
  or without capture, consumes the whole buffer and yields the dictionary built by
  assigning the entries in byte order; so a key that occurs more than once is mapped to
  the value of its last occurrence, and nothing reports the repetition.
\<close>

theorem duplicate_keys_last_wins:
  assumes "list_all2 (\<lambda>(kb, vb) (k, v). encodes kb (BStr k) \<and> encodes vb v) ebs kvs"
  shows "(\<exists>sp. bdecode (dict_bytes ebs) 0 cap
            = Inr (BDict (assign_all [] kvs), length (dict_bytes ebs), sp))
    \<and> dict_get (assign_all [] kvs) key = map_of (rev kvs) key
    \<and> (kvs = pre @ (key, v1) # mid @ (key, v2) # post \<and> key \<notin> fst ` set post
         \<longrightarrow> dict_get (assign_all [] kvs) key = Some v2)"
proof (intro conjI impI)
  show "\<exists>sp. bdecode (dict_bytes ebs) 0 cap
            = Inr (BDict (assign_all [] kvs), length (dict_bytes ebs), sp)"
    using assms by (rule bdecode_dict_bytes)
  show m: "dict_get (assign_all [] kvs) key = map_of (rev kvs) key"
    by (simp add: map_of_assign_all split: option.splits)
  assume "kvs = pre @ (key, v1) # mid @ (key, v2) # post \<and> key \<notin> fst ` set post"
  then have kvs: "kvs = pre @ (key, v1) # mid @ (key, v2) # post"
    and post: "key \<notin> fst ` set post" by simp_all
  from post have "map_of (rev post) key = None"
    by (simp add: map_of_eq_None_iff)
  then have "map_of (rev kvs) key = Some v2"
    by (simp add: kvs map_add_def)
  with m show "dict_get (assign_all [] kvs) key = Some v2" by simp
qed

theorem duplicate_keys_last_wins_witness:
  "encodes ''1:a'' (BStr ''a'') \<and> encodes ''i1e'' (BInt 1) \<and> encodes ''i2e'' (BInt 2)
   \<and> bdecode ''d1:ai1e1:ai2ee'' 0 True = Inr (BDict [(''a'', BInt 2)], 14, None)
   \<and> dict_get [(''a'', BInt 2)] ''a'' = Some (BInt 2)"
proof -
  have e: "encodes ''1:a'' (BStr ''a'')" "encodes ''i1e'' (BInt 1)" "encodes ''i2e'' (BInt 2)"
    unfolding encodes_def by code_simp+
  have b: "bdecode ''d1:ai1e1:ai2ee'' 0 True = Inr (BDict [(''a'', BInt 2)], 14, None)"
    by code_simp
  from e have "list_all2 (\<lambda>(kb, vb) (k, v). encodes kb (BStr k) \<and> encodes vb v)
      [(''1:a'', ''i1e''), (''1:a'', ''i2e'')] [(''a'', BInt 1), (''a'', BInt 2)]"
    by simp
  from duplicate_keys_last_wins [OF this, of True "''a''" "[]" "BInt 1" "[]" "BInt 2" "[]"]
  have "dict_get (assign_all [] [(''a'', BInt 1), (''a'', BInt 2)]) ''a'' = Some (BInt 2)"
    by simp
  then have "dict_get [(''a'', BInt 2)] ''a'' = Some (BInt 2)"
    by (simp add: assign_all_def)
  with e b show ?thesis by simp
qed

end
